theory Spec2Isabelle
  imports Main "HOL-Library.Sublist"
begin

section \<open>Errors and run-time faults\<close>

text \<open>
  The error kinds of the package and the error value every operation returns: a kind, the
  name of the component and a message. A Go \<open>error\<close> result is an \<open>Error option\<close>, with
  \<open>None\<close> for \<open>nil\<close>.
\<close>

datatype ErrorType =
    ErrorTypeParsing
  | ErrorTypeInvalidArgument
  | ErrorTypeNotFound
  | ErrorTypeExists
  | ErrorTypeSaving
  | ErrorTypeLoading
  | ErrorTypeTotal

datatype Error = Error (etype: ErrorType) (Source: string) (Message: string)

text \<open>
  A call either returns or stops: with a run-time panic of the Go runtime (an index or a
  slice bound out of range, a capacity out of range given to \<open>make\<close>, a slice that
  cannot grow) or with its fatal error when the memory is used up.
\<close>

datatype 'a outcome = Panics | Returns 'a

text \<open>Reading \<open>xs[i]\<close> with a Go \<open>int\<close> index: out of range is a panic.\<close>

definition at :: "'a list \<Rightarrow> int \<Rightarrow> 'a outcome" where
  "at xs i = (if 0 \<le> i \<and> i < int (length xs) then Returns (xs ! nat i) else Panics)"

text \<open>
  The Go run-time on its 64-bit platforms: an \<open>int\<close> has 64 bits and \<open>i++\<close> wraps
  around; no object is larger than \<open>maxAlloc\<close> bytes (heap addresses have 48 bits); a
  slice value takes 24 bytes and a string value 16.
\<close>

definition maxInt :: int where
  "maxInt = 2 ^ 63 - 1"

definition minInt :: int where
  "minInt = - (2 ^ 63)"

definition maxAlloc :: int where
  "maxAlloc = 2 ^ 48"

definition incr :: "int \<Rightarrow> int" where
  "incr i = (if i = maxInt then minInt else i + 1)"

text \<open>
  \<open>append\<close> adds one element to a slice of \<open>n\<close> elements of \<open>sz\<close> bytes each. It
  panics when the slice cannot grow. It never can when the longer slice would pass
  \<open>maxAlloc\<close> bytes; below that it depends on the capacity the slice has, on the way the
  run-time enlarges capacities and on the memory at hand, which fix for every slice a
  length \<open>lim\<close> that it reaches and does not pass. That length is a parameter.
\<close>

definition canAppend :: "nat \<Rightarrow> int \<Rightarrow> nat \<Rightarrow> bool" where
  "canAppend lim sz n = (n < lim \<and> (int n + 1) * sz \<le> maxAlloc)"

section \<open>The functions of the Go library the package calls\<close>

subsection \<open>strings.TrimSpace\<close>

text \<open>
  A Go string is a sequence of bytes. \<open>strings.TrimSpace\<close> removes the leading and the
  trailing white space of a string, where white space is any code point for which
  \<open>unicode.IsSpace\<close> holds, read in UTF-8. A string begins (ends) with such a code point
  exactly when it begins (ends) with the UTF-8 encoding of one: the six ASCII ones, U+0085,
  U+00A0, U+1680, U+2000 to U+200A, U+2028, U+2029, U+202F, U+205F and U+3000.
\<close>

definition spaceRunes :: "string list" where
  "spaceRunes =
    [[CHR 0x09], [CHR 0x0A], [CHR 0x0B], [CHR 0x0C], [CHR 0x0D], [CHR 0x20],
     [CHR 0xC2, CHR 0x85], [CHR 0xC2, CHR 0xA0],
     [CHR 0xE1, CHR 0x9A, CHR 0x80],
     [CHR 0xE2, CHR 0x80, CHR 0x80], [CHR 0xE2, CHR 0x80, CHR 0x81],
     [CHR 0xE2, CHR 0x80, CHR 0x82], [CHR 0xE2, CHR 0x80, CHR 0x83],
     [CHR 0xE2, CHR 0x80, CHR 0x84], [CHR 0xE2, CHR 0x80, CHR 0x85],
     [CHR 0xE2, CHR 0x80, CHR 0x86], [CHR 0xE2, CHR 0x80, CHR 0x87],
     [CHR 0xE2, CHR 0x80, CHR 0x88], [CHR 0xE2, CHR 0x80, CHR 0x89],
     [CHR 0xE2, CHR 0x80, CHR 0x8A],
     [CHR 0xE2, CHR 0x80, CHR 0xA8], [CHR 0xE2, CHR 0x80, CHR 0xA9],
     [CHR 0xE2, CHR 0x80, CHR 0xAF],
     [CHR 0xE2, CHR 0x81, CHR 0x9F],
     [CHR 0xE3, CHR 0x80, CHR 0x80]]"

text \<open>The number of bytes of the white-space code point a string begins (ends) with; 0 if none.\<close>

definition leadingSpace :: "string \<Rightarrow> nat" where
  "leadingSpace s = (case find (\<lambda>e. prefix e s) spaceRunes of None \<Rightarrow> 0 | Some e \<Rightarrow> length e)"

definition trailingSpace :: "string \<Rightarrow> nat" where
  "trailingSpace s = (case find (\<lambda>e. suffix e s) spaceRunes of None \<Rightarrow> 0 | Some e \<Rightarrow> length e)"

lemma spaceRunes_nonempty: "e \<in> set spaceRunes \<Longrightarrow> e \<noteq> []"
  by (auto simp: spaceRunes_def)

lemma leadingSpace_le: "leadingSpace s \<le> length s"
  by (auto simp: leadingSpace_def find_Some_iff dest: prefix_length_le split: option.splits)

lemma trailingSpace_le: "trailingSpace s \<le> length s"
  by (auto simp: trailingSpace_def find_Some_iff dest: suffix_length_le split: option.splits)

function TrimLeft :: "string \<Rightarrow> string" where
  "TrimLeft s = (if leadingSpace s = 0 then s else TrimLeft (drop (leadingSpace s) s))"
  by pat_completeness auto
termination
proof (relation "measure length")
  fix s :: string
  assume "leadingSpace s \<noteq> 0"
  moreover have "leadingSpace s \<le> length s" by (rule leadingSpace_le)
  ultimately show "(drop (leadingSpace s) s, s) \<in> measure length" by simp
qed simp

function TrimRight :: "string \<Rightarrow> string" where
  "TrimRight s =
     (if trailingSpace s = 0 then s else TrimRight (take (length s - trailingSpace s) s))"
  by pat_completeness auto
termination
proof (relation "measure length")
  fix s :: string
  assume "trailingSpace s \<noteq> 0"
  moreover have "trailingSpace s \<le> length s" by (rule trailingSpace_le)
  ultimately show "(take (length s - trailingSpace s) s, s) \<in> measure length" by simp
qed simp

declare TrimLeft.simps [simp del] TrimRight.simps [simp del]

definition TrimSpace :: "string \<Rightarrow> string" where
  "TrimSpace s = TrimRight (TrimLeft s)"

subsection \<open>strings.IndexByte and strings.Split\<close>

text \<open>\<open>IndexByte s c\<close> is the index of the first \<open>c\<close> in \<open>s\<close>, or -1.\<close>

definition IndexByte :: "string \<Rightarrow> char \<Rightarrow> int" where
  "IndexByte s c = (if c \<in> set s then int (length (takeWhile (\<lambda>x. x \<noteq> c) s)) else - 1)"

text \<open>\<open>Index s sep\<close> is the index of the first occurrence of \<open>sep\<close> in \<open>s\<close>, if any.\<close>

fun Index :: "string \<Rightarrow> string \<Rightarrow> nat option" where
  "Index [] sep = (if sep = [] then Some 0 else None)"
| "Index (c # s) sep =
     (if prefix sep (c # s) then Some 0 else map_option Suc (Index s sep))"

lemma Index_bound: "Index s sep = Some m \<Longrightarrow> m + length sep \<le> length s"
proof (induction s arbitrary: m)
  case Nil
  then show ?case by (simp split: if_splits)
next
  case (Cons c s)
  show ?case
  proof (cases "prefix sep (c # s)")
    case True
    with Cons.prems show ?thesis by (auto dest: prefix_length_le)
  next
    case False
    with Cons.prems obtain k where "Index s sep = Some k" "m = Suc k" by auto
    with Cons.IH show ?thesis by fastforce
  qed
qed

text \<open>
  With an empty separator \<open>strings.Split\<close> cuts the string after each UTF-8 sequence;
  a byte that starts no valid sequence is a piece of its own. \<open>runeWidth\<close> is the number of
  bytes \<open>utf8.DecodeRuneInString\<close> consumes at the start of a non-empty string.
\<close>

definition isCont :: "nat \<Rightarrow> nat \<Rightarrow> char list \<Rightarrow> nat \<Rightarrow> bool" where
  "isCont lo hi s i = (i < length s \<and> lo \<le> of_char (s ! i) \<and> of_char (s ! i) \<le> hi)"

definition runeWidth :: "string \<Rightarrow> nat" where
  "runeWidth s =
     (let b = (of_char (hd s) :: nat) in
      if b < 0x80 then 1
      else if b < 0xC2 then 1
      else if b < 0xE0 then (if isCont 0x80 0xBF s 1 then 2 else 1)
      else if b < 0xF0 then
        (if isCont (if b = 0xE0 then 0xA0 else 0x80) (if b = 0xED then 0x9F else 0xBF) s 1
            \<and> isCont 0x80 0xBF s 2 then 3 else 1)
      else if b < 0xF5 then
        (if isCont (if b = 0xF0 then 0x90 else 0x80) (if b = 0xF4 then 0x8F else 0xBF) s 1
            \<and> isCont 0x80 0xBF s 2 \<and> isCont 0x80 0xBF s 3 then 4 else 1)
      else 1)"

lemma runeWidth_pos: "0 < runeWidth s"
  by (simp add: runeWidth_def Let_def)

function explode :: "string \<Rightarrow> string list" where
  "explode s = (if s = [] then [] else take (runeWidth s) s # explode (drop (runeWidth s) s))"
  by pat_completeness auto
termination
proof (relation "measure length")
  fix s :: string
  assume "s \<noteq> []"
  then show "(drop (runeWidth s) s, s) \<in> measure length"
    using runeWidth_pos [of s] by simp
qed simp

function splitSep :: "string \<Rightarrow> string \<Rightarrow> string list" where
  "splitSep s sep =
     (if sep = [] then [s]
      else case Index s sep of
             None \<Rightarrow> [s]
           | Some m \<Rightarrow> take m s # splitSep (drop (m + length sep) s) sep)"
  by pat_completeness auto
termination
proof (relation "measure (\<lambda>(s, sep). length s)")
  fix s sep :: string and m :: nat
  assume "sep \<noteq> []" "Index s sep = Some m"
  then show "((drop (m + length sep) s, sep), (s, sep)) \<in> measure (\<lambda>(s, sep). length s)"
    using Index_bound [of s sep m] by (cases sep) auto
qed simp

declare explode.simps [simp del] splitSep.simps [simp del]

definition Split :: "string \<Rightarrow> string \<Rightarrow> string list" where
  "Split s sep = (if sep = [] then explode s else splitSep s sep)"

section \<open>The delimited table (SpreadsheetDelim)\<close>

record SpreadsheetDelim =
  sd_buffer :: int
  sd_Filename :: string
  delimeter :: string
  Data :: "string list list"

definition NewSpreadsheetDelim :: "int \<Rightarrow> string \<Rightarrow> SpreadsheetDelim" where
  "NewSpreadsheetDelim buffer delim =
     \<lparr>sd_buffer = buffer, sd_Filename = [], delimeter = delim, Data = []\<rparr>"

subsection \<open>Set and Get\<close>

text \<open>
  The two loops of \<open>Set\<close>: \<open>for i := len(sd.Data); i <= row; i++\<close> appends an empty row,
  \<open>for i := len(sd.Data[row]); i <= col; i++\<close> appends an empty cell to the row. The
  first parameter is the length up to which the slice of the loop can grow.
\<close>

function Set_rows :: "nat \<Rightarrow> int \<Rightarrow> int \<Rightarrow> string list list \<Rightarrow> string list list outcome" where
  "Set_rows lim i row d =
     (if i \<le> row
      then (if canAppend lim 24 (length d) then Set_rows lim (incr i) row (d @ [[]]) else Panics)
      else Returns d)"
  by pat_completeness auto
termination
  by (relation "measure (\<lambda>(lim, i, row, d). lim - length d)") (auto simp: canAppend_def)

function Set_cols :: "nat \<Rightarrow> int \<Rightarrow> int \<Rightarrow> string list \<Rightarrow> string list outcome" where
  "Set_cols lim i col r =
     (if i \<le> col
      then (if canAppend lim 16 (length r) then Set_cols lim (incr i) col (r @ [[]]) else Panics)
      else Returns r)"
  by pat_completeness auto
termination
  by (relation "measure (\<lambda>(lim, i, col, r). lim - length r)") (auto simp: canAppend_def)

declare Set_rows.simps [simp del] Set_cols.simps [simp del]

text \<open>
  \<open>Set\<close>, with the lengths up to which \<open>sd.Data\<close> and the row \<open>sd.Data[row]\<close> can grow
  in this call.
\<close>

definition SpreadsheetDelim_Set ::
  "nat \<Rightarrow> nat \<Rightarrow> SpreadsheetDelim \<Rightarrow> int \<Rightarrow> int \<Rightarrow> string
     \<Rightarrow> (SpreadsheetDelim \<times> Error option) outcome" where
  "SpreadsheetDelim_Set rowLimit cellLimit sd row col v =
     (case Set_rows rowLimit (int (length (Data sd))) row (Data sd) of
        Panics \<Rightarrow> Panics
      | Returns d \<Rightarrow>
          (case at d row of
             Panics \<Rightarrow> Panics
           | Returns r0 \<Rightarrow>
               (case Set_cols cellLimit (int (length r0)) col r0 of
                  Panics \<Rightarrow> Panics
                | Returns r \<Rightarrow>
                    (case at r col of
                       Panics \<Rightarrow> Panics
                     | Returns _ \<Rightarrow>
                         Returns (sd\<lparr>Data := d[nat row := r[nat col := v]]\<rparr>, None)))))"

definition SpreadsheetDelim_Get :: "SpreadsheetDelim \<Rightarrow> int \<Rightarrow> int \<Rightarrow> (string \<times> bool) outcome" where
  "SpreadsheetDelim_Get sd row col =
     (if row \<ge> int (length (Data sd)) then Returns ([], False)
      else case at (Data sd) row of
        Panics \<Rightarrow> Panics
      | Returns r \<Rightarrow>
          (if col \<ge> int (length r) then Returns ([], False)
           else case at r col of
                  Panics \<Rightarrow> Panics
                | Returns c \<Rightarrow> Returns (c, True)))"

section \<open>Files, faults of the operating system, and the buffered reader\<close>

text \<open>
  The file system maps a file name to the bytes of the file. What the operating system may
  do wrong during one call is a parameter of the call: the open or create fails, the device
  fails after it delivered some bytes, a write stores only some bytes of its argument, the
  close fails, or there is no memory for the line buffer. One fault is enough for one
  call, since the first one ends it.
\<close>

type_synonym filesystem = "string \<rightharpoonup> string"

datatype fault = NoFault | OpenFault | ReadFault nat | WriteFault nat nat | CloseFault | MemFault

text \<open>
  \<open>make([]byte, 0, capacity)\<close> panics when the capacity is negative or above
  \<open>maxAlloc\<close>, and the run-time stops the program when it gets no memory for it.
\<close>

definition makeFails :: "fault \<Rightarrow> int \<Rightarrow> bool" where
  "makeFails flt capacity = (capacity < 0 \<or> maxAlloc < capacity \<or> flt = MemFault)"

datatype ioerr = EOF | ReadFailed

abbreviation LF :: char where "LF \<equiv> CHR 0x0A"
abbreviation CR :: char where "CR \<equiv> CHR 0x0D"

definition Open :: "filesystem \<Rightarrow> fault \<Rightarrow> string \<Rightarrow> string option" where
  "Open fs flt name = (if flt = OpenFault then None else fs name)"

text \<open>
  A \<open>bufio.Reader\<close> over an open file: the bytes not yet read, and whether the device
  reports a failure (instead of the end of the file) once they are used up.
\<close>

record Reader =
  unread :: string
  broken :: bool

definition NewReader :: "fault \<Rightarrow> string \<Rightarrow> Reader" where
  "NewReader flt bytes =
     (case flt of
        ReadFault n \<Rightarrow> \<lparr>unread = take n bytes, broken = True\<rparr>
      | _ \<Rightarrow> \<lparr>unread = bytes, broken = False\<rparr>)"

definition defaultBufSize :: nat where
  "defaultBufSize = 4096"

text \<open>
  \<open>bufio.Reader.ReadLine\<close>: the next line without its end-of-line bytes (\<open>\n\<close> or
  \<open>\r\n\<close>); when no line end is among the next \<open>defaultBufSize\<close> bytes, a fragment of
  the line with \<open>isPrefix\<close> set (a \<open>\r\<close> at the end of the fragment is kept back for the
  next call); at the end of the data, the error.
\<close>

definition ReadLine :: "Reader \<Rightarrow> (string \<times> bool \<times> ioerr option) \<times> Reader" where
  "ReadLine r =
     (let s = unread r in
      if s = [] then (([], False, Some (if broken r then ReadFailed else EOF)), r)
      else if LF \<in> set (take defaultBufSize s) then
        (let l = takeWhile (\<lambda>c. c \<noteq> LF) s in
         ((if l \<noteq> [] \<and> last l = CR then butlast l else l, False, None),
          r\<lparr>unread := drop (length l + 1) s\<rparr>))
      else if defaultBufSize \<le> length s then
        (if s ! (defaultBufSize - 1) = CR
         then ((take (defaultBufSize - 1) s, True, None),
               r\<lparr>unread := drop (defaultBufSize - 1) s\<rparr>)
         else ((take defaultBufSize s, True, None), r\<lparr>unread := drop defaultBufSize s\<rparr>))
      else ((s, False, None), r\<lparr>unread := []\<rparr>))"

lemma ReadLine_isPrefix_shrinks:
  "ReadLine r = ((line, True, err), r') \<Longrightarrow> length (unread r') < length (unread r)"
  by (auto simp: ReadLine_def Let_def defaultBufSize_def split: if_splits)

text \<open>
  \<open>ReadBufferedLine\<close> (Common.go) appends fragments to the buffer \<open>p\<close> until a whole line
  is there. It returns the end-of-file flag, the error, the buffer and the reader.
\<close>

function ReadBufferedLine :: "Reader \<Rightarrow> string \<Rightarrow> bool \<times> ioerr option \<times> string \<times> Reader" where
  "ReadBufferedLine r p =
     (case ReadLine r of
        ((line, isPrefix, err), r') \<Rightarrow>
          (case err of
             Some e \<Rightarrow> (if e = EOF then (True, None, p @ line, r') else (True, Some e, p, r'))
           | None \<Rightarrow>
               (if isPrefix then ReadBufferedLine r' (p @ line)
                else (False, None, p @ line, r'))))"
  by pat_completeness auto
termination
proof (relation "measure (\<lambda>(r, p). length (unread r))")
  show "wf (measure (\<lambda>(r, p). length (unread r)))" by simp
next
  fix r p x1 r' line x2 isPrefix err
  assume "(x1, r') = ReadLine r" "(line, x2) = x1" "(isPrefix, err) = x2" "err = None" "isPrefix"
  then have "ReadLine r = ((line, True, err), r')" by (metis (full_types))
  then show "((r', p @ line), (r, p)) \<in> measure (\<lambda>(r, p). length (unread r))"
    using ReadLine_isPrefix_shrinks by simp
qed

declare ReadBufferedLine.simps [simp del]

lemma ReadLine_unread_le: "ReadLine r = (x, r') \<Longrightarrow> length (unread r') \<le> length (unread r)"
  by (auto simp: ReadLine_def Let_def split: if_splits)

lemma ReadLine_line_shrinks:
  "ReadLine r = ((line, isPrefix, None), r') \<Longrightarrow> length (unread r') < length (unread r)"
  by (auto simp: ReadLine_def Let_def defaultBufSize_def split: if_splits)

lemma ReadBufferedLine_shrinks:
  "ReadBufferedLine r p = (False, err, b, r') \<Longrightarrow> length (unread r') < length (unread r)"
proof (induction r p rule: ReadBufferedLine.induct)
  case (1 r p)
  obtain line isPrefix e r1 where rl: "ReadLine r = ((line, isPrefix, e), r1)"
    by (metis prod.exhaust)
  show ?case
  proof (cases e)
    case (Some a)
    with rl "1.prems" show ?thesis
      by (simp add: ReadBufferedLine.simps [of r p] split: if_splits)
  next
    case None
    note lt = ReadLine_line_shrinks [OF rl [unfolded None]]
    show ?thesis
    proof (cases isPrefix)
      case True
      with rl None "1.prems" have "ReadBufferedLine r1 (p @ line) = (False, err, b, r')"
        by (simp add: ReadBufferedLine.simps [of r p])
      with "1.IH" [OF rl [symmetric] refl refl None True]
      have "length (unread r') < length (unread r1)" by simp
      with lt show ?thesis by simp
    next
      case False
      with rl None "1.prems" have "r' = r1"
        by (simp add: ReadBufferedLine.simps [of r p])
      with lt show ?thesis by simp
    qed
  qed
qed

text \<open>A file being written: the bytes stored so far and the number of writes made.\<close>

record Writer =
  written :: string
  calls :: nat

text \<open>\<open>file.WriteString\<close>: the writer afterwards and whether the write failed.\<close>

definition WriteString :: "fault \<Rightarrow> Writer \<Rightarrow> string \<Rightarrow> Writer \<times> bool" where
  "WriteString flt w s =
     (case flt of
        WriteFault i k \<Rightarrow>
          (if calls w = i then (\<lparr>written = written w @ take k s, calls = calls w + 1\<rparr>, True)
           else (\<lparr>written = written w @ s, calls = calls w + 1\<rparr>, False))
      | _ \<Rightarrow> (\<lparr>written = written w @ s, calls = calls w + 1\<rparr>, False))"

section \<open>The sectioned key/value store (SettingsINI)\<close>

record SettingsINIHeader =
  Values :: "string \<rightharpoonup> string"

record SettingsINI =
  si_buffer :: int
  si_Filename :: string
  Headers :: "string \<rightharpoonup> SettingsINIHeader"

definition NewSettingsINI :: "int \<Rightarrow> SettingsINI" where
  "NewSettingsINI buffer = \<lparr>si_buffer = buffer, si_Filename = [], Headers = Map.empty\<rparr>"

definition HeaderExists :: "SettingsINI \<Rightarrow> string \<Rightarrow> bool" where
  "HeaderExists si header = (Headers si header \<noteq> None)"

definition ValueExists :: "SettingsINI \<Rightarrow> string \<Rightarrow> string \<Rightarrow> bool" where
  "ValueExists si header name =
     (case Headers si header of None \<Rightarrow> False | Some h \<Rightarrow> Values h name \<noteq> None)"

definition SettingsINI_Add ::
  "SettingsINI \<Rightarrow> string \<Rightarrow> string \<Rightarrow> string \<Rightarrow> SettingsINI \<times> Error option" where
  "SettingsINI_Add si header name v =
     (let (h, si1) =
        (case Headers si header of
           None \<Rightarrow> (\<lparr>Values = Map.empty\<rparr>,
                    si\<lparr>Headers := (Headers si)(header \<mapsto> \<lparr>Values = Map.empty\<rparr>)\<rparr>)
         | Some h \<Rightarrow> (h, si))
      in if Values h name \<noteq> None
         then (si1, Some (Error ErrorTypeExists ''SettingsINI''
                   ''Value pair already exists in the specified header''))
         else (si1\<lparr>Headers := (Headers si1)(header \<mapsto> h\<lparr>Values := (Values h)(name \<mapsto> v)\<rparr>)\<rparr>,
               None))"

definition SettingsINI_Set ::
  "SettingsINI \<Rightarrow> string \<Rightarrow> string \<Rightarrow> string \<Rightarrow> SettingsINI \<times> Error option" where
  "SettingsINI_Set si header name v =
     (case Headers si header of
        None \<Rightarrow> (si, Some (Error ErrorTypeNotFound ''SettingsINI''
                   ''Could not find header while setting value''))
      | Some h \<Rightarrow>
          (if Values h name = None
           then (si, Some (Error ErrorTypeNotFound ''SettingsINI''
                   ''Could not find value pair while setting value''))
           else (si\<lparr>Headers := (Headers si)(header \<mapsto> h\<lparr>Values := (Values h)(name \<mapsto> v)\<rparr>)\<rparr>,
                 None)))"

definition SettingsINI_Get :: "SettingsINI \<Rightarrow> string \<Rightarrow> string \<Rightarrow> string \<times> bool" where
  "SettingsINI_Get si header name =
     (case Headers si header of
        None \<Rightarrow> ([], False)
      | Some h \<Rightarrow> (case Values h name of None \<Rightarrow> ([], False) | Some v \<Rightarrow> (v, True)))"

subsection \<open>SettingsINI.Load\<close>

text \<open>
  One pass of the loop body of \<open>Load\<close> after the line was read into \<open>buffer\<close>. The
  variable \<open>currentHeader\<close> points to the header object stored in \<open>si.Headers\<close> under the
  name of the section that was opened last, so it is kept as that name (\<open>None\<close> for the
  nil pointer); writing through the pointer updates the map under that name. The name is
  put into the map when it becomes current and nothing is ever removed, so the branch for
  a current name that is missing from the map is never taken. An error leaves the loop
  before the line changes the store.
\<close>

definition SettingsINI_Load_line ::
  "string \<Rightarrow> SettingsINI \<Rightarrow> string option \<Rightarrow> Error + (SettingsINI \<times> string option)" where
  "SettingsINI_Load_line buffer si currentHeader =
     (let line = TrimSpace buffer in
      if length line = 0 then Inr (si, currentHeader)
      else if length line \<ge> 2 then
        (if line ! 0 = CHR ''/'' \<and> line ! 1 = CHR ''/'' then Inr (si, currentHeader)
         else if line ! 0 = CHR ''['' then
           (if line ! (length line - 1) = CHR '']'' then
              (let headerName = take (length line - 1 - 1) (drop 1 line) in
               if length headerName = 0
               then Inl (Error ErrorTypeParsing ''SettingsINI''
                           ''No header name specified between brackets'')
               else if Headers si headerName \<noteq> None
               then Inl (Error ErrorTypeParsing ''SettingsINI'' ''Header name is specified twice'')
               else Inr (si\<lparr>Headers := (Headers si)(headerName \<mapsto> \<lparr>Values = Map.empty\<rparr>)\<rparr>,
                         Some headerName))
            else Inl (Error ErrorTypeParsing ''SettingsINI'' ''Invalid header syntax encountered''))
         else
           (let equal = IndexByte line (CHR ''='') in
            if equal = - 1
            then Inl (Error ErrorTypeParsing ''SettingsINI''
                        ''Expected to find an equal-character'')
            else
              (let name = TrimSpace (take (nat equal) line);
                   v = TrimSpace (drop (nat (equal + 1)) line) in
               if length name = 0
               then Inl (Error ErrorTypeParsing ''SettingsINI''
                           ''Value pair encountered without name'')
               else if length v = 0
               then Inl (Error ErrorTypeParsing ''SettingsINI''
                           ''Value pair encountered without value'')
               else
                 (let (si1, cur) =
                    (case currentHeader of
                       None \<Rightarrow> (si\<lparr>Headers := (Headers si)([] \<mapsto> \<lparr>Values = Map.empty\<rparr>)\<rparr>, [])
                     | Some c \<Rightarrow> (si, c))
                  in case Headers si1 cur of
                       None \<Rightarrow> Inr (si1, Some cur)
                     | Some h \<Rightarrow>
                         Inr (si1\<lparr>Headers :=
                                (Headers si1)(cur \<mapsto> h\<lparr>Values := (Values h)(name \<mapsto> v)\<rparr>)\<rparr>,
                              Some cur)))))
      else Inr (si, currentHeader))"

text \<open>
  The loop \<open>for !eof\<close>: it returns the store as it is when the loop ends, and the error
  that ended it, if one did.
\<close>

function SettingsINI_Load_loop ::
  "Reader \<Rightarrow> SettingsINI \<Rightarrow> string option \<Rightarrow> SettingsINI \<times> Error option" where
  "SettingsINI_Load_loop r si currentHeader =
     (case ReadBufferedLine r [] of
        (eof, err, buffer, r') \<Rightarrow>
          (if err \<noteq> None
           then (si, Some (Error ErrorTypeLoading ''SettingsINI'' ''Failed to read new line''))
           else case SettingsINI_Load_line buffer si currentHeader of
                  Inl e \<Rightarrow> (si, Some e)
                | Inr (si', cur') \<Rightarrow>
                    (if eof then (si', None) else SettingsINI_Load_loop r' si' cur')))"
  by pat_completeness auto
termination
proof (relation "measure (\<lambda>(r, si, c). length (unread r))")
  show "wf (measure (\<lambda>(r, si, c). length (unread r)))" by simp
next
  fix r :: Reader and si :: SettingsINI and currentHeader :: "string option"
    and eof x2 err x3 buffer r' x5 si' cur'
  assume "(eof, x2) = ReadBufferedLine r []" "(err, x3) = x2" "(buffer, r') = x3" "\<not> eof"
  then have "ReadBufferedLine r [] = (False, err, buffer, r')" by (metis (full_types))
  then show "((r', si', cur'), (r, si, currentHeader)) \<in> measure (\<lambda>(r, si, c). length (unread r))"
    using ReadBufferedLine_shrinks by simp
qed

declare SettingsINI_Load_loop.simps [simp del]

definition SettingsINI_Load ::
  "filesystem \<Rightarrow> fault \<Rightarrow> SettingsINI \<Rightarrow> string \<Rightarrow> (SettingsINI \<times> Error option) outcome" where
  "SettingsINI_Load fs flt si filename =
     (if length filename = 0 \<and> length (si_Filename si) = 0
      then Returns (si, Some (Error ErrorTypeInvalidArgument ''SettingsINI''
                      ''Internal and argument filename are empty''))
      else
        (let fname = (if length filename = 0 then si_Filename si else filename);
             si1 = (if length filename = 0 then si else si\<lparr>si_Filename := filename\<rparr>)
         in case Open fs flt fname of
              None \<Rightarrow> Returns (si1, Some (Error ErrorTypeLoading ''SettingsINI''
                                  ''Failed to open the file''))
            | Some bytes \<Rightarrow>
                (if makeFails flt (si_buffer si1) then Panics
                 else
                   (case SettingsINI_Load_loop (NewReader flt bytes)
                           (si1\<lparr>Headers := Map.empty\<rparr>) None of
                      (si2, Some e) \<Rightarrow> Returns (si2, Some e)
                    | (si2, None) \<Rightarrow>
                        (if flt = CloseFault
                         then Returns (si2, Some (Error ErrorTypeLoading ''SettingsINI''
                                         ''Failed to close the file after reading''))
                         else Returns (si2, None))))))"

subsection \<open>SettingsINI.Save\<close>

text \<open>
  \<open>range\<close> over a Go map yields its keys in an order the language leaves open. The order
  is a parameter here: \<open>ho\<close> lists the header names as \<open>range si.Headers\<close> yields them,
  and \<open>ko h\<close> the keys as \<open>range header.Values\<close> yields them for the header \<open>h\<close>. A name
  that is not in the map is passed over.
\<close>

fun Save_values :: "fault \<Rightarrow> SettingsINIHeader \<Rightarrow> string list \<Rightarrow> Writer \<Rightarrow> Writer \<times> bool" where
  "Save_values flt header [] w = (w, False)"
| "Save_values flt header (valueKey # ks) w =
     (case Values header valueKey of
        None \<Rightarrow> Save_values flt header ks w
      | Some v \<Rightarrow>
          (case WriteString flt w (valueKey @ '' = '' @ v @ [LF]) of
             (w', True) \<Rightarrow> (w', True)
           | (w', False) \<Rightarrow> Save_values flt header ks w'))"

fun Save_headers ::
  "fault \<Rightarrow> (string \<rightharpoonup> SettingsINIHeader) \<Rightarrow> (string \<Rightarrow> string list) \<Rightarrow> string list \<Rightarrow> Writer
     \<Rightarrow> Writer \<times> Error option" where
  "Save_headers flt hs ko [] w = (w, None)"
| "Save_headers flt hs ko (headerKey # hks) w =
     (case hs headerKey of
        None \<Rightarrow> Save_headers flt hs ko hks w
      | Some header \<Rightarrow>
          (if length headerKey \<noteq> 0 then
             (case WriteString flt w ([CHR ''[''] @ headerKey @ '']'' @ [LF]) of
                (w', True) \<Rightarrow>
                  (w', Some (Error ErrorTypeSaving ''SettingsINI''
                               ''Failed to write header string to file''))
              | (w', False) \<Rightarrow>
                  (case Save_values flt header (ko headerKey) w' of
                     (w'', True) \<Rightarrow>
                       (w'', Some (Error ErrorTypeSaving ''SettingsINI''
                                     ''Failed to write headered value pair string to file''))
                   | (w'', False) \<Rightarrow> Save_headers flt hs ko hks w''))
           else Save_headers flt hs ko hks w))"

definition SettingsINI_Save ::
  "filesystem \<Rightarrow> fault \<Rightarrow> string list \<Rightarrow> (string \<Rightarrow> string list) \<Rightarrow> SettingsINI \<Rightarrow> string
     \<Rightarrow> SettingsINI \<times> filesystem \<times> Error option" where
  "SettingsINI_Save fs flt ho ko si filename =
     (if length filename = 0 \<and> length (si_Filename si) = 0
      then (si, fs, Some (Error ErrorTypeInvalidArgument ''SettingsINI''
                            ''Internal and argument filenames are empty''))
      else
        (let fname = (if length filename = 0 then si_Filename si else filename) in
         if flt = OpenFault
         then (si, fs, Some (Error ErrorTypeSaving ''SettingsINI''
                               ''Failed to open file for writing''))
         else
           (case (case Headers si [] of
                    None \<Rightarrow> (\<lparr>written = [], calls = 0\<rparr>, False)
                  | Some header \<Rightarrow> Save_values flt header (ko []) \<lparr>written = [], calls = 0\<rparr>) of
              (w1, True) \<Rightarrow>
                (si, fs(fname \<mapsto> written w1),
                 Some (Error ErrorTypeSaving ''SettingsINI''
                         ''Failed to write headerless value pair string to file''))
            | (w1, False) \<Rightarrow>
                (case Save_headers flt (Headers si) ko ho w1 of
                   (w2, Some e) \<Rightarrow> (si, fs(fname \<mapsto> written w2), Some e)
                 | (w2, None) \<Rightarrow>
                     (si, fs(fname \<mapsto> written w2),
                      if flt = CloseFault
                      then Some (Error ErrorTypeSaving ''SettingsINI''
                                   ''Failed to close the file after saving'')
                      else None)))))"

subsection \<open>SpreadsheetDelim.Load and SpreadsheetDelim.Save\<close>

text \<open>
  One pass of the loop body of \<open>Load\<close> after the line was read into \<open>buffer\<close>, with the
  counter of skipped rows. Slicing \<open>newData[skipCols:]\<close> with a negative bound is a panic.
\<close>

definition SpreadsheetDelim_Load_line ::
  "string \<Rightarrow> int \<Rightarrow> int \<Rightarrow> SpreadsheetDelim \<Rightarrow> int
     \<Rightarrow> (Error + (SpreadsheetDelim \<times> int)) outcome" where
  "SpreadsheetDelim_Load_line buffer skipCols skipRows sd skipRowCounter =
     (if skipRowCounter < skipRows then Returns (Inr (sd, skipRowCounter + 1))
      else if length buffer = 0 then Returns (Inr (sd, skipRowCounter))
      else
        (let newData = Split buffer (delimeter sd) in
         if length newData = 0
         then Returns (Inl (Error ErrorTypeParsing ''SpreadsheetDelim''
                              ''Non-empty buffer did not produce delimter split values''))
         else if int (length newData) \<le> skipCols then Returns (Inr (sd, skipRowCounter))
         else if skipCols < 0 then Panics
         else Returns (Inr (sd\<lparr>Data := Data sd @ [drop (nat skipCols) newData]\<rparr>,
                            skipRowCounter))))"

function SpreadsheetDelim_Load_loop ::
  "Reader \<Rightarrow> int \<Rightarrow> int \<Rightarrow> SpreadsheetDelim \<Rightarrow> int
     \<Rightarrow> (SpreadsheetDelim \<times> Error option) outcome" where
  "SpreadsheetDelim_Load_loop r skipCols skipRows sd skipRowCounter =
     (case ReadBufferedLine r [] of
        (eof, err, buffer, r') \<Rightarrow>
          (if err \<noteq> None
           then Returns (sd, Some (Error ErrorTypeLoading ''SpreadsheetDelim''
                                     ''Failed to read a new line''))
           else case SpreadsheetDelim_Load_line buffer skipCols skipRows sd skipRowCounter of
                  Panics \<Rightarrow> Panics
                | Returns (Inl e) \<Rightarrow> Returns (sd, Some e)
                | Returns (Inr (sd', counter')) \<Rightarrow>
                    (if eof then Returns (sd', None)
                     else SpreadsheetDelim_Load_loop r' skipCols skipRows sd' counter')))"
  by pat_completeness auto
termination
proof (relation "measure (\<lambda>(r, sc, sr, sd, c). length (unread r))")
  show "wf (measure (\<lambda>(r, sc, sr, sd, c). length (unread r)))" by simp
next
  fix r :: Reader and skipCols skipRows :: int and sd :: SpreadsheetDelim and skipRowCounter :: int
    and eof x2 err x3 buffer r' sd' counter'
  assume "(eof, x2) = ReadBufferedLine r []" "(err, x3) = x2" "(buffer, r') = x3" "\<not> eof"
  then have "ReadBufferedLine r [] = (False, err, buffer, r')" by (metis (full_types))
  then show "((r', skipCols, skipRows, sd', counter'), (r, skipCols, skipRows, sd, skipRowCounter))
      \<in> measure (\<lambda>(r, sc, sr, sd, c). length (unread r))"
    using ReadBufferedLine_shrinks by simp
qed

declare SpreadsheetDelim_Load_loop.simps [simp del]

definition SpreadsheetDelim_Load ::
  "filesystem \<Rightarrow> fault \<Rightarrow> SpreadsheetDelim \<Rightarrow> string \<Rightarrow> int \<Rightarrow> int
     \<Rightarrow> (SpreadsheetDelim \<times> Error option) outcome" where
  "SpreadsheetDelim_Load fs flt sd filename skipCols skipRows =
     (if length filename = 0 \<and> length (sd_Filename sd) = 0
      then Returns (sd, Some (Error ErrorTypeInvalidArgument ''SpreadsheetDelim''
                      ''No filename specified to load''))
      else
        (let fname = (if length filename = 0 then sd_Filename sd else filename);
             sd1 = (if length filename = 0 then sd else sd\<lparr>sd_Filename := filename\<rparr>)
         in case Open fs flt fname of
              None \<Rightarrow> Returns (sd1, Some (Error ErrorTypeLoading ''SpreadsheetDelim''
                                  ''Failed to load file''))
            | Some bytes \<Rightarrow>
                (if makeFails flt (sd_buffer sd1) then Panics
                 else
                   (case SpreadsheetDelim_Load_loop (NewReader flt bytes) skipCols skipRows sd1 0 of
                      Panics \<Rightarrow> Panics
                    | Returns (sd2, Some e) \<Rightarrow> Returns (sd2, Some e)
                    | Returns (sd2, None) \<Rightarrow>
                        (if flt = CloseFault
                         then Returns (sd2, Some (Error ErrorTypeLoading ''SpreadsheetDelim''
                                         ''Failed to close the file after loading''))
                         else Returns (sd2, None))))))"

text \<open>The inner loop of \<open>Save\<close> over the cells of a row, \<open>i\<close> being the index of the cell.\<close>

fun Save_row :: "string \<Rightarrow> nat \<Rightarrow> string list \<Rightarrow> string \<Rightarrow> string" where
  "Save_row delim i [] buffer = buffer"
| "Save_row delim i (col # cols) buffer =
     Save_row delim (i + 1) cols ((if i \<noteq> 0 then buffer @ delim else buffer) @ col)"

fun Save_rows :: "fault \<Rightarrow> string \<Rightarrow> string list list \<Rightarrow> Writer \<Rightarrow> Writer \<times> bool" where
  "Save_rows flt delim [] w = (w, False)"
| "Save_rows flt delim (row # rows) w =
     (case WriteString flt w (Save_row delim 0 row [] @ [LF]) of
        (w', True) \<Rightarrow> (w', True)
      | (w', False) \<Rightarrow> Save_rows flt delim rows w')"

definition SpreadsheetDelim_Save ::
  "filesystem \<Rightarrow> fault \<Rightarrow> SpreadsheetDelim \<Rightarrow> string
     \<Rightarrow> SpreadsheetDelim \<times> filesystem \<times> Error option" where
  "SpreadsheetDelim_Save fs flt sd filename =
     (if length filename = 0 \<and> length (sd_Filename sd) = 0
      then (sd, fs, Some (Error ErrorTypeInvalidArgument ''SpreadsheetDelim''
                            ''No filename specified to save''))
      else
        (let fname = (if length filename = 0 then sd_Filename sd else filename) in
         if flt = OpenFault
         then (sd, fs, Some (Error ErrorTypeSaving ''SpreadsheetDelim''
                               ''Failed to create/open file for writing''))
         else
           (case Save_rows flt (delimeter sd) (Data sd) \<lparr>written = [], calls = 0\<rparr> of
              (w, True) \<Rightarrow>
                (sd, fs(fname \<mapsto> written w),
                 Some (Error ErrorTypeSaving ''SpreadsheetDelim''
                         ''Failed to write buffered data row to file''))
            | (w, False) \<Rightarrow>
                (sd, fs(fname \<mapsto> written w),
                 if flt = CloseFault
                 then Some (Error ErrorTypeSaving ''SpreadsheetDelim''
                              ''Failed to close the file after saving'')
                 else None))))"

section \<open>Properties of Set and Get on the table\<close>

text \<open>
  The two loops of \<open>Set\<close> pad with empty rows and empty cells, when the slice has the
  length the counter starts from and can grow as far as needed.
\<close>

lemma incr_small: "(i + 1) * sz \<le> maxAlloc \<Longrightarrow> 1 \<le> sz \<Longrightarrow> 0 \<le> i \<Longrightarrow> incr i = i + 1"
proof -
  assume a: "(i + 1) * sz \<le> maxAlloc" "1 \<le> sz" "0 \<le> i"
  have "i + 1 \<le> (i + 1) * sz" using a(2,3) by (simp add: mult_le_cancel_left1)
  with a(1) have "i + 1 \<le> maxAlloc" by simp
  then have "i \<noteq> maxInt" by (simp add: maxAlloc_def maxInt_def)
  then show ?thesis by (simp add: incr_def)
qed

lemma Set_rows_eq:
  assumes "i = int (length d)" "row < i \<or> (nat row < lim \<and> (row + 1) * 24 \<le> maxAlloc)"
  shows "Set_rows lim i row d = Returns (d @ replicate (nat (row + 1 - i)) [])"
  using assms
proof (induction "nat (row + 1 - i)" arbitrary: i d)
  case 0
  then have "\<not> i \<le> row" by simp
  with 0 show ?case by (subst Set_rows.simps) simp
next
  case (Suc n)
  then have le: "i \<le> row" by simp
  with Suc.prems have b: "nat row < lim" "(row + 1) * 24 \<le> maxAlloc" by simp_all
  have i0: "0 \<le> i" using Suc.prems(1) by simp
  have "(i + 1) * 24 \<le> (row + 1) * 24" using le by simp
  with b(2) have s: "(i + 1) * 24 \<le> maxAlloc" by simp
  have "length d < lim" using le b(1) Suc.prems(1) by simp
  with s Suc.prems(1) have can: "canAppend lim 24 (length d)" by (simp add: canAppend_def)
  have inc: "incr i = i + 1" using s i0 by (intro incr_small [of i 24]) simp_all
  have "n = nat (row + 1 - (i + 1))" using Suc.hyps(2) by simp
  moreover have "i + 1 = int (length (d @ [[]]))" using Suc.prems(1) by simp
  ultimately have "Set_rows lim (i + 1) row (d @ [[]])
      = Returns ((d @ [[]]) @ replicate (nat (row + 1 - (i + 1))) [])"
    using b by (intro Suc.hyps(1)) simp_all
  moreover have "nat (row + 1 - i) = Suc (nat (row + 1 - (i + 1)))" using le by simp
  ultimately show ?case
    using le can inc by (subst Set_rows.simps) (simp add: replicate_app_Cons_same)
qed

lemma Set_cols_eq:
  assumes "i = int (length r)" "col < i \<or> (nat col < lim \<and> (col + 1) * 16 \<le> maxAlloc)"
  shows "Set_cols lim i col r = Returns (r @ replicate (nat (col + 1 - i)) [])"
  using assms
proof (induction "nat (col + 1 - i)" arbitrary: i r)
  case 0
  then have "\<not> i \<le> col" by simp
  with 0 show ?case by (subst Set_cols.simps) simp
next
  case (Suc n)
  then have le: "i \<le> col" by simp
  with Suc.prems have b: "nat col < lim" "(col + 1) * 16 \<le> maxAlloc" by simp_all
  have i0: "0 \<le> i" using Suc.prems(1) by simp
  have "(i + 1) * 16 \<le> (col + 1) * 16" using le by simp
  with b(2) have s: "(i + 1) * 16 \<le> maxAlloc" by simp
  have "length r < lim" using le b(1) Suc.prems(1) by simp
  with s Suc.prems(1) have can: "canAppend lim 16 (length r)" by (simp add: canAppend_def)
  have inc: "incr i = i + 1" using s i0 by (intro incr_small [of i 16]) simp_all
  have "n = nat (col + 1 - (i + 1))" using Suc.hyps(2) by simp
  moreover have "i + 1 = int (length (r @ [[]]))" using Suc.prems(1) by simp
  ultimately have "Set_cols lim (i + 1) col (r @ [[]])
      = Returns ((r @ [[]]) @ replicate (nat (col + 1 - (i + 1))) [])"
    using b by (intro Suc.hyps(1)) simp_all
  moreover have "nat (col + 1 - i) = Suc (nat (col + 1 - (i + 1)))" using le by simp
  ultimately show ?case
    using le can inc by (subst Set_cols.simps) (simp add: replicate_app_Cons_same)
qed

lemma list2_nth: "length xs = 2 \<Longrightarrow> xs = [xs ! 0, xs ! 1]"
  by (auto simp: list_eq_iff_nth_eq less_Suc_eq numeral_2_eq_2)

lemma list3_nth: "length xs = 3 \<Longrightarrow> xs = [xs ! 0, xs ! 1, xs ! 2]"
  by (auto simp: list_eq_iff_nth_eq less_Suc_eq numeral_3_eq_3 numeral_2_eq_2)

lemma nth_pad: "i < length (xs @ replicate n []) \<Longrightarrow> (xs @ replicate n []) ! i = (if i < length xs then xs ! i else [])"
  by (simp add: nth_append)

text \<open>
  A negative row or column passes both loops and fails at the index expression; a row
  and a column that the slices can grow to are created and assigned.
\<close>

lemma Set_negative_panics:
  assumes "row < 0 \<or> col < 0"
  shows "SpreadsheetDelim_Set rowLimit cellLimit sd row col v = Panics"
proof (cases "Set_rows rowLimit (int (length (Data sd))) row (Data sd)")
  case Panics
  then show ?thesis by (simp add: SpreadsheetDelim_Set_def)
next
  case (Returns d)
  note d = Returns
  show ?thesis
  proof (cases "at d row")
    case Panics
    with d show ?thesis by (simp add: SpreadsheetDelim_Set_def)
  next
    case (Returns r0)
    then have "0 \<le> row" by (simp add: at_def split: if_splits)
    with assms have c: "col < 0" by simp
    then have "Set_cols cellLimit (int (length r0)) col r0 = Returns r0"
      using Set_cols_eq [of "int (length r0)" r0 col cellLimit] by simp
    moreover have "at r0 col = Panics" using c by (simp add: at_def)
    ultimately show ?thesis using d Returns by (simp add: SpreadsheetDelim_Set_def)
  qed
qed

lemma Set_in_range:
  assumes "0 \<le> row" "nat row < rowLimit" "(row + 1) * 24 \<le> maxAlloc"
    and "0 \<le> col" "nat col < cellLimit" "(col + 1) * 16 \<le> maxAlloc"
  shows "\<exists>d'. SpreadsheetDelim_Set rowLimit cellLimit sd row col v = Returns (sd\<lparr>Data := d'\<rparr>, None)
      \<and> length d' = max (length (Data sd)) (nat row + 1)
      \<and> length (d' ! nat row) =
          max (if nat row < length (Data sd) then length (Data sd ! nat row) else 0) (nat col + 1)
      \<and> d' ! nat row ! nat col = v
      \<and> (\<forall>i < length d'. i \<noteq> nat row \<longrightarrow>
            d' ! i = (if i < length (Data sd) then Data sd ! i else []))
      \<and> (\<forall>j < length (d' ! nat row). j \<noteq> nat col \<longrightarrow>
            d' ! nat row ! j =
              (if nat row < length (Data sd) \<and> j < length (Data sd ! nat row)
               then Data sd ! nat row ! j else []))"
proof -
  define d where "d = Data sd @ replicate (nat (row + 1 - int (length (Data sd)))) []"
  define r0 where "r0 = d ! nat row"
  define r where "r = r0 @ replicate (nat (col + 1 - int (length r0))) ([]::string)"
  define d' where "d' = d[nat row := r[nat col := v]]"
  have rows: "Set_rows rowLimit (int (length (Data sd))) row (Data sd) = Returns d"
    unfolding d_def using assms(2,3) by (intro Set_rows_eq) simp_all
  have cols: "Set_cols cellLimit (int (length r0)) col r0 = Returns r"
    unfolding r_def using assms(5,6) by (intro Set_cols_eq) simp_all
  have len_d: "length d = max (length (Data sd)) (nat row + 1)"
    using assms by (auto simp: d_def)
  have row_in: "nat row < length d" using len_d by simp
  have at_d: "at d row = Returns r0"
    using assms row_in by (simp add: at_def r0_def)
  have r0_eq: "r0 = (if nat row < length (Data sd) then Data sd ! nat row else [])"
    using row_in unfolding r0_def d_def by (simp add: nth_append)
  have len_r: "length r = max (length r0) (nat col + 1)"
    using assms by (auto simp: r_def)
  have col_in: "nat col < length r" using len_r by simp
  have at_r: "at r col = Returns (r ! nat col)"
    using assms col_in by (simp add: at_def)
  have run: "SpreadsheetDelim_Set rowLimit cellLimit sd row col v = Returns (sd\<lparr>Data := d'\<rparr>, None)"
    by (simp add: SpreadsheetDelim_Set_def rows at_d cols at_r d'_def)
  have len_d': "length d' = max (length (Data sd)) (nat row + 1)"
    using len_d by (simp add: d'_def)
  have row': "d' ! nat row = r[nat col := v]"
    using row_in by (simp add: d'_def)
  have c2: "length (d' ! nat row) =
      max (if nat row < length (Data sd) then length (Data sd ! nat row) else 0) (nat col + 1)"
    using len_r r0_eq by (simp add: row')
  have c3: "d' ! nat row ! nat col = v"
    using col_in by (simp add: row')
  have c4: "\<forall>i < length d'. i \<noteq> nat row \<longrightarrow>
      d' ! i = (if i < length (Data sd) then Data sd ! i else [])"
    by (auto simp: d'_def d_def nth_append)
  have c5: "\<forall>j < length (d' ! nat row). j \<noteq> nat col \<longrightarrow>
      d' ! nat row ! j =
        (if nat row < length (Data sd) \<and> j < length (Data sd ! nat row)
         then Data sd ! nat row ! j else [])"
  proof (intro allI impI)
    fix j assume j: "j < length (d' ! nat row)" "j \<noteq> nat col"
    then have "j < length (r0 @ replicate (nat (col + 1 - int (length r0))) ([]::string))"
      by (simp add: row' r_def)
    then have "r ! j = (if j < length r0 then r0 ! j else [])"
      unfolding r_def by (rule nth_pad)
    with j r0_eq show "d' ! nat row ! j =
        (if nat row < length (Data sd) \<and> j < length (Data sd ! nat row)
         then Data sd ! nat row ! j else [])"
      by (auto simp: row')
  qed
  from run len_d' c2 c3 c4 c5 show ?thesis by blast
qed

text \<open>
  Beyond these lengths \<open>Set\<close> does not return: a row that the table does not have yet
  and cannot grow to is a panic of \<open>append\<close>.
\<close>

lemma Set_beyond_limit:
  assumes "int (length (Data sd)) \<le> row" "rowLimit \<le> nat row \<or> maxAlloc < (row + 1) * 24"
  shows "SpreadsheetDelim_Set rowLimit cellLimit sd row col v = Panics"
proof -
  have "Set_rows rowLimit i row d = Panics"
    if "i = int (length d)" "i \<le> row" for i d
    using that
  proof (induction "nat (row + 1 - i)" arbitrary: i d)
    case 0
    then show ?case by simp
  next
    case (Suc n)
    show ?case
    proof (cases "canAppend rowLimit 24 (length d)")
      case False
      with Suc.prems show ?thesis by (subst Set_rows.simps) simp
    next
      case True
      then have c: "length d < rowLimit" "(i + 1) * 24 \<le> maxAlloc"
        using Suc.prems(1) by (simp_all add: canAppend_def)
      have i0: "0 \<le> i" using Suc.prems(1) by simp
      have inc: "incr i = i + 1" using c(2) i0 by (intro incr_small [of i 24]) simp_all
      have "i \<noteq> row"
      proof
        assume "i = row"
        with c Suc.prems(1) assms(2) show False by auto
      qed
      with Suc.prems(2) have lt: "i + 1 \<le> row" by simp
      have "n = nat (row + 1 - (i + 1))" using Suc.hyps(2) by simp
      moreover have "i + 1 = int (length (d @ [[]]))" using Suc.prems(1) by simp
      ultimately have "Set_rows rowLimit (i + 1) row (d @ [[]]) = Panics"
        using lt by (intro Suc.hyps(1)) simp_all
      with True Suc.prems(2) inc show ?thesis
        by (subst Set_rows.simps) simp
    qed
  qed
  from this [OF refl assms(1)] show ?thesis by (simp add: SpreadsheetDelim_Set_def)
qed

definition table1 :: SpreadsheetDelim where
  "table1 = \<lparr>sd_buffer = 16, sd_Filename = [], delimeter = '','', Data = [[''a'']]\<rparr>"

text \<open>
  Claim C6. \<open>Get(row, col)\<close> outside the bounds of the table, a negative row or column
  included, returns the empty string and \<open>found = false\<close> without a fault. The function
  only compares \<open>row\<close> and \<open>col\<close> with the lengths from above, as the lemma
  \<open>Get_beyond_bounds\<close> shows; with a negative row or column it goes on to index the slice
  and the run-time stops it: on the table with the one cell \<open>a\<close>, \<open>Get(-1, 0)\<close> and
  \<open>Get(0, -1)\<close> panic.
\<close>

theorem Get_negative_index_panics:
  "SpreadsheetDelim_Get table1 (- 1) 0 = Panics \<and> SpreadsheetDelim_Get table1 0 (- 1) = Panics"
  by (simp add: SpreadsheetDelim_Get_def table1_def at_def)

lemma Get_beyond_bounds:
  assumes "int (length (Data sd)) \<le> row
           \<or> (0 \<le> row \<and> row < int (length (Data sd)) \<and> int (length (Data sd ! nat row)) \<le> col)"
  shows "SpreadsheetDelim_Get sd row col = Returns ([], False)"
  using assms by (auto simp: SpreadsheetDelim_Get_def at_def)

lemma Get_within_bounds:
  assumes "0 \<le> row" "row < int (length (Data sd))"
    and "0 \<le> col" "col < int (length (Data sd ! nat row))"
  shows "SpreadsheetDelim_Get sd row col = Returns (Data sd ! nat row ! nat col, True)"
  using assms by (simp add: SpreadsheetDelim_Get_def at_def)

text \<open>
  Claim C7, as stated, for every row and column: \<open>Set\<close> never fails. With a negative row
  the first loop appends nothing and \<open>sd.Data[row]\<close> panics, whatever the lengths the
  slices can grow to (here 100).
\<close>

theorem Set_negative_row_panics:
  "SpreadsheetDelim_Set 100 100 (NewSpreadsheetDelim 16 '','') (- 1) 0 ''x'' = Panics"
  by (simp add: SpreadsheetDelim_Set_def NewSpreadsheetDelim_def Set_rows_eq at_def)

text \<open>
  Claim C7, amended. With a negative row or column \<open>Set\<close> panics. With a row and a
  column that are not negative and within what the slices can grow to (below the lengths
  \<open>rowLimit\<close> and \<open>cellLimit\<close> of this call, and \<open>row + 1\<close> slice values and
  \<open>col + 1\<close> string values within \<open>maxAlloc\<close> bytes), \<open>Set(row, col, v)\<close> returns
  without an error; afterwards the table has \<open>row + 1\<close> rows or as many as before if that
  is more, the row \<open>row\<close> has \<open>col + 1\<close> cells or as many as before if that is more, the
  cell at \<open>(row, col)\<close> is \<open>v\<close>, every other row is what it was before (an empty row if
  it is new), and every other cell of the row \<open>row\<close> is what it was before (the empty
  string if it is new).
\<close>

theorem Set_extends_and_assigns:
  "(row < 0 \<or> col < 0 \<longrightarrow> SpreadsheetDelim_Set rowLimit cellLimit sd row col v = Panics)
   \<and> (0 \<le> row \<and> nat row < rowLimit \<and> (row + 1) * 24 \<le> maxAlloc
       \<and> 0 \<le> col \<and> nat col < cellLimit \<and> (col + 1) * 16 \<le> maxAlloc \<longrightarrow>
      (\<exists>d'. SpreadsheetDelim_Set rowLimit cellLimit sd row col v = Returns (sd\<lparr>Data := d'\<rparr>, None)
        \<and> length d' = max (length (Data sd)) (nat row + 1)
        \<and> length (d' ! nat row) =
            max (if nat row < length (Data sd) then length (Data sd ! nat row) else 0) (nat col + 1)
        \<and> d' ! nat row ! nat col = v
        \<and> (\<forall>i < length d'. i \<noteq> nat row \<longrightarrow>
              d' ! i = (if i < length (Data sd) then Data sd ! i else []))
        \<and> (\<forall>j < length (d' ! nat row). j \<noteq> nat col \<longrightarrow>
              d' ! nat row ! j =
                (if nat row < length (Data sd) \<and> j < length (Data sd ! nat row)
                 then Data sd ! nat row ! j else []))))"
  using Set_negative_panics [of row col rowLimit cellLimit sd v]
    Set_in_range [of row rowLimit col cellLimit sd v]
  by blast

text \<open>
  An instance of the amended claim C7: on the table with the one cell \<open>a\<close>,
  \<open>Set(1, 2, "x")\<close> gives the rows \<open>[a]\<close> and \<open>["", "", x]\<close>, and \<open>Set(0, -1, "x")\<close>
  panics.
\<close>

theorem Set_extends_and_assigns_witness:
  "SpreadsheetDelim_Set 100 100 table1 1 2 ''x''
       = Returns (table1\<lparr>Data := [[''a''], [[], [], ''x'']]\<rparr>, None)
   \<and> SpreadsheetDelim_Set 100 100 table1 0 (- 1) ''x'' = Panics"
proof -
  have b: "(0::int) \<le> 1" "nat 1 < (100::nat)" "((1::int) + 1) * 24 \<le> maxAlloc"
    "(0::int) \<le> 2" "nat 2 < (100::nat)" "((2::int) + 1) * 16 \<le> maxAlloc"
    by (simp_all add: maxAlloc_def)
  from Set_extends_and_assigns [of 1 2 100 100 table1 "''x''"] b
  obtain d' where d': "SpreadsheetDelim_Set 100 100 table1 1 2 ''x'' = Returns (table1\<lparr>Data := d'\<rparr>, None)"
    "length d' = max (length (Data table1)) (nat 1 + 1)"
    "length (d' ! nat 1) =
        max (if nat 1 < length (Data table1) then length (Data table1 ! nat 1) else 0) (nat 2 + 1)"
    "d' ! nat 1 ! nat 2 = ''x''"
    "\<forall>i < length d'. i \<noteq> nat 1 \<longrightarrow>
        d' ! i = (if i < length (Data table1) then Data table1 ! i else [])"
    "\<forall>j < length (d' ! nat 1). j \<noteq> nat 2 \<longrightarrow>
        d' ! nat 1 ! j =
          (if nat 1 < length (Data table1) \<and> j < length (Data table1 ! nat 1)
           then Data table1 ! nat 1 ! j else [])"
    by blast
  have l: "length d' = 2" using d'(2) by (simp add: table1_def)
  have r0: "d' ! 0 = [''a'']" using d'(5) l by (simp add: table1_def)
  have l1: "length (d' ! 1) = 3" using d'(3) by (simp add: table1_def)
  have c: "d' ! 1 ! 0 = []" "d' ! 1 ! 1 = []" "d' ! 1 ! 2 = ''x''"
    using d'(4,6) l1 by (simp_all add: table1_def)
  have "d' ! 1 = [[], [], ''x'']"
    using list3_nth [OF l1] c by simp
  with r0 list2_nth [OF l] have "d' = [[''a''], [[], [], ''x'']]"
    by simp
  with d'(1) have run: "SpreadsheetDelim_Set 100 100 table1 1 2 ''x''
       = Returns (table1\<lparr>Data := [[''a''], [[], [], ''x'']]\<rparr>, None)" by simp
  from Set_extends_and_assigns [of 0 "- 1" 100 100 table1 "''x''"]
  have "SpreadsheetDelim_Set 100 100 table1 0 (- 1) ''x'' = Panics" by simp
  with run show ?thesis by simp
qed

section \<open>Properties of Add, Set and Get on the store\<close>

definition store1 :: SettingsINI where
  "store1 = \<lparr>si_buffer = 16, si_Filename = [],
             Headers = [''A'' \<mapsto> \<lparr>Values = [''x'' \<mapsto> ''1'']\<rparr>]\<rparr>"

text \<open>
  Claim C8. When the pair \<open>(header, name)\<close> holds a value, \<open>Add\<close> fails with
  \<open>AlreadyExists\<close> and returns the store as it was, and \<open>Set\<close> overwrites the value and
  changes nothing else. When it holds none (the header is absent, or the name is absent
  in the header), \<open>Set\<close> fails with \<open>NotFound\<close> and returns the store as it was, and
  \<open>Add\<close> inserts the pair, creating the header if it is absent, and changes nothing else.
\<close>

theorem Add_Set_contract:
  "(ValueExists si header name \<longrightarrow>
      (\<exists>e. SettingsINI_Add si header name v = (si, Some e) \<and> etype e = ErrorTypeExists)
    \<and> (\<exists>si'. SettingsINI_Set si header name v = (si', None)
          \<and> SettingsINI_Get si' header name = (v, True)
          \<and> (\<forall>h n. (h, n) \<noteq> (header, name) \<longrightarrow>
                SettingsINI_Get si' h n = SettingsINI_Get si h n
                \<and> ValueExists si' h n = ValueExists si h n)
          \<and> (\<forall>h. HeaderExists si' h = HeaderExists si h)))
   \<and> (\<not> ValueExists si header name \<longrightarrow>
      (\<exists>e. SettingsINI_Set si header name v = (si, Some e) \<and> etype e = ErrorTypeNotFound)
    \<and> (\<exists>si'. SettingsINI_Add si header name v = (si', None)
          \<and> SettingsINI_Get si' header name = (v, True)
          \<and> (\<forall>h n. (h, n) \<noteq> (header, name) \<longrightarrow>
                SettingsINI_Get si' h n = SettingsINI_Get si h n
                \<and> ValueExists si' h n = ValueExists si h n)
          \<and> (\<forall>h. HeaderExists si' h = (h = header \<or> HeaderExists si h))))"
proof (intro conjI impI)
  assume ex: "ValueExists si header name"
  then obtain h v0 where h: "Headers si header = Some h" "Values h name = Some v0"
    by (auto simp: ValueExists_def split: option.splits)
  show "\<exists>e. SettingsINI_Add si header name v = (si, Some e) \<and> etype e = ErrorTypeExists"
    using h by (simp add: SettingsINI_Add_def)
  show "\<exists>si'. SettingsINI_Set si header name v = (si', None)
          \<and> SettingsINI_Get si' header name = (v, True)
          \<and> (\<forall>h n. (h, n) \<noteq> (header, name) \<longrightarrow>
                SettingsINI_Get si' h n = SettingsINI_Get si h n
                \<and> ValueExists si' h n = ValueExists si h n)
          \<and> (\<forall>h. HeaderExists si' h = HeaderExists si h)"
    using h by (auto simp: SettingsINI_Set_def SettingsINI_Get_def ValueExists_def HeaderExists_def)
next
  assume nex: "\<not> ValueExists si header name"
  show "\<exists>e. SettingsINI_Set si header name v = (si, Some e) \<and> etype e = ErrorTypeNotFound"
    using nex by (auto simp: SettingsINI_Set_def ValueExists_def split: option.splits)
  show "\<exists>si'. SettingsINI_Add si header name v = (si', None)
          \<and> SettingsINI_Get si' header name = (v, True)
          \<and> (\<forall>h n. (h, n) \<noteq> (header, name) \<longrightarrow>
                SettingsINI_Get si' h n = SettingsINI_Get si h n
                \<and> ValueExists si' h n = ValueExists si h n)
          \<and> (\<forall>h. HeaderExists si' h = (h = header \<or> HeaderExists si h))"
  proof (cases "Headers si header")
    case None
    then show ?thesis
      by (auto simp: SettingsINI_Add_def SettingsINI_Get_def ValueExists_def HeaderExists_def)
  next
    case (Some h)
    with nex have "Values h name = None" by (simp add: ValueExists_def)
    with Some show ?thesis
      by (auto simp: SettingsINI_Add_def SettingsINI_Get_def ValueExists_def HeaderExists_def)
  qed
qed

theorem Add_Set_contract_witness:
  "ValueExists store1 ''A'' ''x''
   \<and> (\<exists>e. SettingsINI_Add store1 ''A'' ''x'' ''2'' = (store1, Some e) \<and> etype e = ErrorTypeExists)
   \<and> \<not> ValueExists store1 ''B'' ''y''
   \<and> (\<exists>e. SettingsINI_Set store1 ''B'' ''y'' ''2'' = (store1, Some e) \<and> etype e = ErrorTypeNotFound)"
proof -
  have a: "ValueExists store1 ''A'' ''x''" by (simp add: ValueExists_def store1_def)
  have b: "\<not> ValueExists store1 ''B'' ''y''" by (simp add: ValueExists_def store1_def)
  from a b Add_Set_contract [of store1 "''A''" "''x''" "''2''"]
    Add_Set_contract [of store1 "''B''" "''y''" "''2''"]
  show ?thesis by blast
qed

section \<open>The lines of a file\<close>

text \<open>
  The lines \<open>ReadBufferedLine\<close> delivers for the bytes of a file: the bytes are cut at
  each \<open>\n\<close>, a line that ends with \<open>\n\<close> loses one \<open>\r\<close> before it, and bytes after
  the last \<open>\n\<close> are a last line as they are. \<open>fileLines\<close> states this directly; the
  lemmas below show that the loops of \<open>Load\<close>, which read through \<open>ReadLine\<close> fragment
  by fragment, process exactly these lines when the device does not fail.
\<close>

definition chompCR :: "string \<Rightarrow> string" where
  "chompCR l = (if l \<noteq> [] \<and> last l = CR then butlast l else l)"

function fileLines :: "string \<Rightarrow> string list" where
  "fileLines s =
     (if s = [] then []
      else (let l = takeWhile (\<lambda>c. c \<noteq> LF) s; rest = dropWhile (\<lambda>c. c \<noteq> LF) s
            in if rest = [] then [l] else chompCR l # fileLines (tl rest)))"
  by pat_completeness auto
termination
proof (relation "measure length")
  fix s l rest :: string
  assume "s \<noteq> []" "rest = dropWhile (\<lambda>c. c \<noteq> LF) s" "rest \<noteq> []"
  then have "length rest \<le> length s" "rest \<noteq> []"
    by (simp_all add: length_dropWhile_le)
  then have "length (tl rest) < length s" by (cases rest) simp_all
  then show "(tl rest, s) \<in> measure length" by simp
qed simp

declare fileLines.simps [simp del]

lemma defaultBufSize_ge2: "2 \<le> defaultBufSize"
  by (simp add: defaultBufSize_def)

lemma chompCR_append: "ys \<noteq> [] \<Longrightarrow> chompCR (xs @ ys) = xs @ chompCR ys"
  by (simp add: chompCR_def butlast_append)

lemma ReadLine_short_line:
  assumes "unread r = l @ LF # rest" "LF \<notin> set l" "LF \<in> set (take defaultBufSize (unread r))"
  shows "ReadLine r = ((chompCR l, False, None), r\<lparr>unread := rest\<rparr>)"
proof -
  have "takeWhile (\<lambda>c. c \<noteq> LF) (l @ LF # rest) = l"
    using assms(2) by (auto simp: takeWhile_tail)
  with assms show ?thesis
    by (simp add: ReadLine_def Let_def chompCR_def)
qed

lemma no_LF_in_buffer:
  assumes "LF \<notin> set (take n (l @ LF # rest))"
  shows "n \<le> length l"
proof (rule ccontr)
  assume "\<not> n \<le> length l"
  then have "length l < n" by simp
  then have "take n (l @ LF # rest) ! length l = LF" "length l < length (take n (l @ LF # rest))"
    by (simp_all add: nth_append)
  then have "LF \<in> set (take n (l @ LF # rest))" by (metis nth_mem)
  with assms show False by simp
qed

lemma ReadLine_fragment:
  assumes "unread r = s" "LF \<notin> set (take defaultBufSize s)" "defaultBufSize \<le> length s"
    and "n = (if s ! (defaultBufSize - 1) = CR then defaultBufSize - 1 else defaultBufSize)"
  shows "ReadLine r = ((take n s, True, None), r\<lparr>unread := drop n s\<rparr>)"
proof -
  have "s \<noteq> []" using assms(3) defaultBufSize_ge2 by auto
  with assms show ?thesis by (simp add: ReadLine_def Let_def)
qed

lemma chompCR_split:
  assumes "n \<le> length l" "0 < n" "n < length l \<or> l ! (n - 1) \<noteq> CR"
  shows "take n l @ chompCR (drop n l) = chompCR l"
proof (cases "drop n l = []")
  case True
  with assms have len: "length l = n" "l \<noteq> []" by auto
  then have "last l = l ! (n - 1)" by (simp add: last_conv_nth)
  with assms len have "last l \<noteq> CR" by simp
  with True len show ?thesis by (simp add: chompCR_def)
next
  case False
  from chompCR_append [OF False, of "take n l"] show ?thesis by simp
qed

lemma ReadBufferedLine_terminated:
  "unread r = l @ LF # rest \<Longrightarrow> LF \<notin> set l \<Longrightarrow>
   ReadBufferedLine r p = (False, None, p @ chompCR l, r\<lparr>unread := rest\<rparr>)"
proof (induction "length l" arbitrary: l r p rule: less_induct)
  case less
  define s where "s = unread r"
  let ?B = defaultBufSize
  note B2 = defaultBufSize_ge2
  have s: "s = l @ LF # rest" using less.prems(1) by (simp add: s_def)
  show ?case
  proof (cases "LF \<in> set (take ?B (unread r))")
    case True
    from ReadLine_short_line [OF less.prems(1) less.prems(2) True]
    show ?thesis by (simp add: ReadBufferedLine.simps [of r p])
  next
    case False
    then have nolf: "LF \<notin> set (take ?B s)" by (simp add: s_def)
    have Bl: "?B \<le> length l"
      using nolf unfolding s by (rule no_LF_in_buffer)
    then have Bs: "?B \<le> length s" unfolding s by simp
    define n where "n = (if s ! (?B - 1) = CR then ?B - 1 else ?B)"
    define r' where "r' = r\<lparr>unread := drop n s\<rparr>"
    have n: "0 < n" "n \<le> length l" using Bl B2 by (auto simp: n_def)
    have rl: "ReadLine r = ((take n s, True, None), r')"
      unfolding r'_def by (rule ReadLine_fragment [OF s_def [symmetric] nolf Bs n_def])
    have tk: "take n s = take n l" using n unfolding s by simp
    have u': "unread r' = drop n l @ LF # rest" using n unfolding r'_def s by simp
    have nolf': "LF \<notin> set (drop n l)" using less.prems(2) by (auto dest: in_set_dropD)
    have shorter: "length (drop n l) < length l" using n by simp
    have "?B - 1 < length l" using Bl B2 by arith
    then have sl: "s ! (?B - 1) = l ! (?B - 1)" unfolding s by (simp add: nth_append)
    have "n < length l \<or> l ! (n - 1) \<noteq> CR"
    proof (cases "s ! (?B - 1) = CR")
      case True
      then have "n = ?B - 1" by (simp add: n_def)
      with Bl B2 have "n < length l" by simp
      then show ?thesis by (rule disjI1)
    next
      case False
      then have "n - 1 = ?B - 1" by (simp add: n_def)
      with False sl have "l ! (n - 1) \<noteq> CR" by simp
      then show ?thesis by (rule disjI2)
    qed
    from chompCR_split [OF n(2) n(1) this]
    have glue: "take n l @ chompCR (drop n l) = chompCR l" .
    from less.hyps [OF shorter u' nolf', of "p @ take n l"]
    have "ReadBufferedLine r' (p @ take n l)
            = (False, None, (p @ take n l) @ chompCR (drop n l), r'\<lparr>unread := rest\<rparr>)" .
    moreover have "r'\<lparr>unread := rest\<rparr> = r\<lparr>unread := rest\<rparr>" by (simp add: r'_def)
    ultimately have "ReadBufferedLine r' (p @ take n l)
            = (False, None, p @ chompCR l, r\<lparr>unread := rest\<rparr>)"
      using glue by simp
    then show ?thesis
      using rl tk by (simp add: ReadBufferedLine.simps [of r p])
  qed
qed

lemma ReadBufferedLine_at_end:
  "unread r = [] \<Longrightarrow> \<not> broken r \<Longrightarrow> ReadBufferedLine r p = (True, None, p, r)"
  by (simp add: ReadBufferedLine.simps [of r p] ReadLine_def)

lemma ReadBufferedLine_unterminated:
  "unread r = s \<Longrightarrow> s \<noteq> [] \<Longrightarrow> LF \<notin> set s \<Longrightarrow> \<not> broken r \<Longrightarrow>
   \<exists>eof. ReadBufferedLine r p = (eof, None, p @ s, r\<lparr>unread := []\<rparr>)"
proof (induction "length s" arbitrary: s r p rule: less_induct)
  case less
  let ?B = defaultBufSize
  note B2 = defaultBufSize_ge2
  have nolf: "LF \<notin> set (take ?B s)" using less.prems(3) by (auto dest: in_set_takeD)
  show ?case
  proof (cases "?B \<le> length s")
    case False
    then have "ReadLine r = ((s, False, None), r\<lparr>unread := []\<rparr>)"
      using less.prems nolf by (simp add: ReadLine_def Let_def)
    then have "ReadBufferedLine r p = (False, None, p @ s, r\<lparr>unread := []\<rparr>)"
      by (simp add: ReadBufferedLine.simps [of r p])
    then show ?thesis by blast
  next
    case Bs: True
    define n where "n = (if s ! (?B - 1) = CR then ?B - 1 else ?B)"
    define r' where "r' = r\<lparr>unread := drop n s\<rparr>"
    have n: "0 < n" "n \<le> length s" using Bs B2 by (auto simp: n_def)
    have rl: "ReadLine r = ((take n s, True, None), r')"
      unfolding r'_def by (rule ReadLine_fragment [OF less.prems(1) nolf Bs n_def])
    have step: "ReadBufferedLine r p = ReadBufferedLine r' (p @ take n s)"
      using rl by (simp add: ReadBufferedLine.simps [of r p])
    have r'e: "r'\<lparr>unread := []\<rparr> = r\<lparr>unread := []\<rparr>" by (simp add: r'_def)
    show ?thesis
    proof (cases "drop n s = []")
      case True
      then have "unread r' = []" "\<not> broken r'" using less.prems(4) by (simp_all add: r'_def)
      from ReadBufferedLine_at_end [OF this, of "p @ take n s"] True n
      have "ReadBufferedLine r' (p @ take n s) = (True, None, p @ s, r')" by simp
      moreover have "r' = r\<lparr>unread := []\<rparr>" using True by (simp add: r'_def)
      ultimately have "ReadBufferedLine r p = (True, None, p @ s, r\<lparr>unread := []\<rparr>)"
        using step by simp
      then show ?thesis by blast
    next
      case False
      have "length (drop n s) < length s" using n by simp
      moreover have "unread r' = drop n s" by (simp add: r'_def)
      moreover have "LF \<notin> set (drop n s)" using less.prems(3) by (auto dest: in_set_dropD)
      moreover have "\<not> broken r'" using less.prems(4) by (simp add: r'_def)
      ultimately obtain eof where
        "ReadBufferedLine r' (p @ take n s) = (eof, None, (p @ take n s) @ drop n s, r'\<lparr>unread := []\<rparr>)"
        using less.hyps [of "drop n s" r' "p @ take n s"] False by blast
      then have "ReadBufferedLine r p = (eof, None, p @ s, r\<lparr>unread := []\<rparr>)"
        using step r'e by simp
      then show ?thesis by blast
    qed
  qed
qed

lemma fileLines_Nil: "fileLines [] = []"
  by (simp add: fileLines.simps)

lemma fileLines_unterminated: "s \<noteq> [] \<Longrightarrow> LF \<notin> set s \<Longrightarrow> fileLines s = [s]"
proof -
  assume a: "s \<noteq> []" "LF \<notin> set s"
  then have "takeWhile (\<lambda>c. c \<noteq> LF) s = s" "dropWhile (\<lambda>c. c \<noteq> LF) s = []"
    by auto
  with a show ?thesis by (simp add: fileLines.simps [of s])
qed

lemma fileLines_terminated:
  assumes "LF \<notin> set l"
  shows "fileLines (l @ LF # rest) = chompCR l # fileLines rest"
proof -
  have "takeWhile (\<lambda>c. c \<noteq> LF) (l @ LF # rest) = l"
    using assms by (auto simp: takeWhile_tail)
  moreover have "dropWhile (\<lambda>c. c \<noteq> LF) (l @ LF # rest) = LF # rest"
    using assms by (auto simp: dropWhile_append3)
  ultimately show ?thesis by (simp add: fileLines.simps [of "l @ LF # rest"])
qed

lemma read_cases:
  assumes "\<not> broken r"
  shows "(unread r = [] \<and> fileLines (unread r) = [] \<and> ReadBufferedLine r [] = (True, None, [], r))
    \<or> (\<exists>eof. fileLines (unread r) = [unread r]
          \<and> ReadBufferedLine r [] = (eof, None, unread r, r\<lparr>unread := []\<rparr>))
    \<or> (\<exists>l rest. fileLines (unread r) = l # fileLines rest
          \<and> ReadBufferedLine r [] = (False, None, l, r\<lparr>unread := rest\<rparr>)
          \<and> length rest < length (unread r))"
proof (cases "unread r = []")
  case True
  with assms ReadBufferedLine_at_end [of r "[]"] show ?thesis by (simp add: fileLines_Nil)
next
  case ne: False
  show ?thesis
  proof (cases "LF \<in> set (unread r)")
    case False
    from ReadBufferedLine_unterminated [OF refl ne False assms, of "[]"]
    obtain eof where "ReadBufferedLine r [] = (eof, None, unread r, r\<lparr>unread := []\<rparr>)" by auto
    with fileLines_unterminated [OF ne False] show ?thesis by blast
  next
    case True
    then obtain l rest where sp: "unread r = l @ LF # rest" "LF \<notin> set l"
      by (meson split_list_first)
    from ReadBufferedLine_terminated [OF sp, of "[]"]
    have "ReadBufferedLine r [] = (False, None, chompCR l, r\<lparr>unread := rest\<rparr>)" by simp
    moreover have "fileLines (unread r) = chompCR l # fileLines rest"
      using fileLines_terminated [OF sp(2)] sp(1) by simp
    moreover have "length rest < length (unread r)" using sp(1) by simp
    ultimately show ?thesis by blast
  qed
qed

lemma leadingSpace_Nil: "leadingSpace [] = 0"
  by (simp add: leadingSpace_def spaceRunes_def)

lemma trailingSpace_Nil: "trailingSpace [] = 0"
  by (simp add: trailingSpace_def spaceRunes_def)

lemma TrimSpace_Nil: "TrimSpace [] = []"
  by (simp add: TrimSpace_def TrimLeft.simps [of "[]"] TrimRight.simps [of "[]"]
      leadingSpace_Nil trailingSpace_Nil)

lemma SettingsINI_Load_line_Nil: "SettingsINI_Load_line [] si cur = Inr (si, cur)"
  by (simp add: SettingsINI_Load_line_def TrimSpace_Nil)

fun SettingsINI_Load_lines ::
  "string list \<Rightarrow> SettingsINI \<Rightarrow> string option \<Rightarrow> SettingsINI \<times> Error option" where
  "SettingsINI_Load_lines [] si cur = (si, None)"
| "SettingsINI_Load_lines (l # ls) si cur =
     (case SettingsINI_Load_line l si cur of
        Inl e \<Rightarrow> (si, Some e)
      | Inr (si', cur') \<Rightarrow> SettingsINI_Load_lines ls si' cur')"

text \<open>
  The same lines, one after the other, with the current header kept: the store and the
  current header after the last line, or the error of the first line that fails.
\<close>

fun SettingsINI_Load_steps ::
  "string list \<Rightarrow> SettingsINI \<Rightarrow> string option \<Rightarrow> Error + (SettingsINI \<times> string option)" where
  "SettingsINI_Load_steps [] si cur = Inr (si, cur)"
| "SettingsINI_Load_steps (l # ls) si cur =
     (case SettingsINI_Load_line l si cur of
        Inl e \<Rightarrow> Inl e
      | Inr (si', cur') \<Rightarrow> SettingsINI_Load_steps ls si' cur')"

lemma SettingsINI_Load_steps_append:
  "SettingsINI_Load_steps xs si cur = Inr (si1, c1) \<Longrightarrow>
   SettingsINI_Load_steps (xs @ ys) si cur = SettingsINI_Load_steps ys si1 c1"
  by (induction xs arbitrary: si cur) (auto split: sum.splits)

lemma SettingsINI_Load_lines_steps:
  "SettingsINI_Load_steps ls si cur = Inr (si', c') \<Longrightarrow>
   SettingsINI_Load_lines ls si cur = (si', None)"
  by (induction ls arbitrary: si cur) (auto split: sum.splits)

lemma SettingsINI_Load_lines_done:
  "SettingsINI_Load_lines ls si cur = (si', None) \<Longrightarrow>
   \<exists>c. SettingsINI_Load_steps ls si cur = Inr (si', c)"
proof (induction ls arbitrary: si cur)
  case Nil
  then show ?case by simp
next
  case (Cons l ls)
  show ?case
  proof (cases "SettingsINI_Load_line l si cur")
    case (Inl e)
    with Cons.prems show ?thesis by simp
  next
    case (Inr p)
    obtain si1 c1 where p: "p = (si1, c1)" by (cases p)
    with Inr Cons.prems have "SettingsINI_Load_lines ls si1 c1 = (si', None)" by simp
    from Cons.IH [OF this] Inr p show ?thesis by simp
  qed
qed



lemma SettingsINI_Load_loop_lines:
  "\<not> broken r \<Longrightarrow>
   SettingsINI_Load_loop r si cur = SettingsINI_Load_lines (fileLines (unread r)) si cur"
proof (induction "length (unread r)" arbitrary: r si cur rule: less_induct)
  case less
  note nb = less.prems
  from read_cases [OF nb] consider
    (empty) "unread r = []" "fileLines (unread r) = []" "ReadBufferedLine r [] = (True, None, [], r)"
  | (final) eof where "fileLines (unread r) = [unread r]"
      "ReadBufferedLine r [] = (eof, None, unread r, r\<lparr>unread := []\<rparr>)"
  | (line) l rest where "fileLines (unread r) = l # fileLines rest"
      "ReadBufferedLine r [] = (False, None, l, r\<lparr>unread := rest\<rparr>)"
      "length rest < length (unread r)"
    by blast
  then show ?case
  proof cases
    case empty
    then show ?thesis
      by (simp add: SettingsINI_Load_loop.simps [of r si cur] SettingsINI_Load_line_Nil)
  next
    case final
    have after: "SettingsINI_Load_loop (r\<lparr>unread := []\<rparr>) si' cur' = (si', None)" for si' cur'
      using ReadBufferedLine_at_end [of "r\<lparr>unread := []\<rparr>" "[]"] nb
      by (simp add: SettingsINI_Load_loop.simps [of "r\<lparr>unread := []\<rparr>" si' cur']
          SettingsINI_Load_line_Nil)
    show ?thesis
      using final after
      by (simp add: SettingsINI_Load_loop.simps [of r si cur] split: sum.splits prod.splits)
  next
    case line
    have "SettingsINI_Load_loop (r\<lparr>unread := rest\<rparr>) si' cur'
            = SettingsINI_Load_lines (fileLines rest) si' cur'" for si' cur'
      using less.hyps [of "r\<lparr>unread := rest\<rparr>" si' cur'] line(3) nb by simp
    with line show ?thesis
      by (simp add: SettingsINI_Load_loop.simps [of r si cur] split: sum.splits prod.splits)
  qed
qed

fun SpreadsheetDelim_Load_lines ::
  "string list \<Rightarrow> int \<Rightarrow> int \<Rightarrow> SpreadsheetDelim \<Rightarrow> int
     \<Rightarrow> (SpreadsheetDelim \<times> Error option) outcome" where
  "SpreadsheetDelim_Load_lines [] skipCols skipRows sd counter = Returns (sd, None)"
| "SpreadsheetDelim_Load_lines (l # ls) skipCols skipRows sd counter =
     (case SpreadsheetDelim_Load_line l skipCols skipRows sd counter of
        Panics \<Rightarrow> Panics
      | Returns (Inl e) \<Rightarrow> Returns (sd, Some e)
      | Returns (Inr (sd', counter')) \<Rightarrow>
          SpreadsheetDelim_Load_lines ls skipCols skipRows sd' counter')"

lemma SpreadsheetDelim_Load_line_Nil:
  "\<exists>c'. SpreadsheetDelim_Load_line [] skipCols skipRows sd c = Returns (Inr (sd, c'))"
  by (simp add: SpreadsheetDelim_Load_line_def)

lemma SpreadsheetDelim_Load_loop_at_end:
  assumes "unread r = []" "\<not> broken r"
  shows "SpreadsheetDelim_Load_loop r skipCols skipRows sd c = Returns (sd, None)"
proof -
  obtain c' where "SpreadsheetDelim_Load_line [] skipCols skipRows sd c = Returns (Inr (sd, c'))"
    using SpreadsheetDelim_Load_line_Nil by blast
  with ReadBufferedLine_at_end [OF assms, of "[]"] show ?thesis
    by (simp add: SpreadsheetDelim_Load_loop.simps [of r skipCols skipRows sd c])
qed

lemma SpreadsheetDelim_Load_loop_lines:
  "\<not> broken r \<Longrightarrow>
   SpreadsheetDelim_Load_loop r skipCols skipRows sd c
     = SpreadsheetDelim_Load_lines (fileLines (unread r)) skipCols skipRows sd c"
proof (induction "length (unread r)" arbitrary: r sd c rule: less_induct)
  case less
  note nb = less.prems
  from read_cases [OF nb] consider
    (empty) "unread r = []" "fileLines (unread r) = []" "ReadBufferedLine r [] = (True, None, [], r)"
  | (final) eof where "fileLines (unread r) = [unread r]"
      "ReadBufferedLine r [] = (eof, None, unread r, r\<lparr>unread := []\<rparr>)"
  | (line) l rest where "fileLines (unread r) = l # fileLines rest"
      "ReadBufferedLine r [] = (False, None, l, r\<lparr>unread := rest\<rparr>)"
      "length rest < length (unread r)"
    by blast
  then show ?case
  proof cases
    case empty
    with SpreadsheetDelim_Load_loop_at_end [OF empty(1) nb] show ?thesis by simp
  next
    case final
    have after: "SpreadsheetDelim_Load_loop (r\<lparr>unread := []\<rparr>) skipCols skipRows sd' c'
                   = Returns (sd', None)" for sd' c'
      using nb by (simp add: SpreadsheetDelim_Load_loop_at_end)
    show ?thesis
      using final after
      by (simp add: SpreadsheetDelim_Load_loop.simps [of r skipCols skipRows sd c]
          split: sum.splits prod.splits outcome.splits)
  next
    case line
    have "SpreadsheetDelim_Load_loop (r\<lparr>unread := rest\<rparr>) skipCols skipRows sd' c'
            = SpreadsheetDelim_Load_lines (fileLines rest) skipCols skipRows sd' c'" for sd' c'
      using less.hyps [of "r\<lparr>unread := rest\<rparr>" sd' c'] line(3) nb by simp
    with line show ?thesis
      by (simp add: SpreadsheetDelim_Load_loop.simps [of r skipCols skipRows sd c]
          split: sum.splits prod.splits outcome.splits)
  qed
qed

section \<open>What a loop of Load leaves behind, for any device\<close>

text \<open>
  Without a fault, \<open>make([]byte, 0, buffer)\<close> returns when the capacity is neither negative
  nor above the largest allocation.
\<close>

lemma makeFails_NoFault: "makeFails NoFault n \<longleftrightarrow> n < 0 \<or> maxAlloc < n"
  by (simp add: makeFails_def)

lemma makeFails_16 [simp]: "\<not> makeFails NoFault 16"
  by (simp add: makeFails_def maxAlloc_def)

text \<open>
  When the device may fail, the loop of \<open>SettingsINI.Load\<close> still ends with the store
  that some first lines of the file built, one line after the other: the lines before a
  parse error, or the lines read before the device failed.
\<close>

lemma ReadBufferedLine_at_end_any:
  "unread r = [] \<Longrightarrow> \<exists>err. ReadBufferedLine r p = (True, err, p, r)"
  by (simp add: ReadBufferedLine.simps [of r p] ReadLine_def)

lemma ReadBufferedLine_unterminated_any:
  "unread r = s \<Longrightarrow> s \<noteq> [] \<Longrightarrow> LF \<notin> set s \<Longrightarrow>
   \<exists>eof err b. ReadBufferedLine r p = (eof, err, b, r\<lparr>unread := []\<rparr>) \<and> (err = None \<longrightarrow> b = p @ s)"
proof (induction "length s" arbitrary: s r p rule: less_induct)
  case less
  let ?B = defaultBufSize
  note B2 = defaultBufSize_ge2
  have nolf: "LF \<notin> set (take ?B s)" using less.prems(3) by (auto dest: in_set_takeD)
  show ?case
  proof (cases "?B \<le> length s")
    case False
    then have "ReadLine r = ((s, False, None), r\<lparr>unread := []\<rparr>)"
      using less.prems nolf by (simp add: ReadLine_def Let_def)
    then have "ReadBufferedLine r p = (False, None, p @ s, r\<lparr>unread := []\<rparr>)"
      by (simp add: ReadBufferedLine.simps [of r p])
    then show ?thesis by blast
  next
    case Bs: True
    define n where "n = (if s ! (?B - 1) = CR then ?B - 1 else ?B)"
    define r' where "r' = r\<lparr>unread := drop n s\<rparr>"
    have n: "0 < n" "n \<le> length s" using Bs B2 by (auto simp: n_def)
    have rl: "ReadLine r = ((take n s, True, None), r')"
      unfolding r'_def by (rule ReadLine_fragment [OF less.prems(1) nolf Bs n_def])
    have step: "ReadBufferedLine r p = ReadBufferedLine r' (p @ take n s)"
      using rl by (simp add: ReadBufferedLine.simps [of r p])
    have r'e: "r'\<lparr>unread := []\<rparr> = r\<lparr>unread := []\<rparr>" by (simp add: r'_def)
    show ?thesis
    proof (cases "drop n s = []")
      case True
      then have u: "unread r' = []" by (simp add: r'_def)
      from ReadBufferedLine_at_end_any [OF u, of "p @ take n s"] obtain err where
        "ReadBufferedLine r' (p @ take n s) = (True, err, p @ take n s, r')" by blast
      moreover have "r' = r\<lparr>unread := []\<rparr>" using True by (simp add: r'_def)
      moreover have "take n s = s" using True by simp
      ultimately have "ReadBufferedLine r p = (True, err, p @ s, r\<lparr>unread := []\<rparr>)"
        using step by simp
      then show ?thesis by blast
    next
      case False
      have "length (drop n s) < length s" using n by simp
      moreover have "unread r' = drop n s" by (simp add: r'_def)
      moreover have "LF \<notin> set (drop n s)" using less.prems(3) by (auto dest: in_set_dropD)
      ultimately obtain eof err b where
        "ReadBufferedLine r' (p @ take n s) = (eof, err, b, r'\<lparr>unread := []\<rparr>)"
        "err = None \<longrightarrow> b = (p @ take n s) @ drop n s"
        using less.hyps [of "drop n s" r' "p @ take n s"] False by blast
      then have "ReadBufferedLine r p = (eof, err, b, r\<lparr>unread := []\<rparr>)"
        "err = None \<longrightarrow> b = p @ s"
        using step r'e by simp_all
      then show ?thesis by blast
    qed
  qed
qed

lemma ReadBufferedLine_short:
  assumes "unread r = s" "s \<noteq> []" "LF \<notin> set s" "length s < defaultBufSize"
  shows "ReadBufferedLine r p = (False, None, p @ s, r\<lparr>unread := []\<rparr>)"
proof -
  have "LF \<notin> set (take defaultBufSize s)" using assms(3) by (auto dest: in_set_takeD)
  then have "ReadLine r = ((s, False, None), r\<lparr>unread := []\<rparr>)"
    using assms by (simp add: ReadLine_def Let_def)
  then show ?thesis by (simp add: ReadBufferedLine.simps [of r p])
qed

lemma read_cases_any:
  "(unread r = [] \<and> (\<exists>err. ReadBufferedLine r [] = (True, err, [], r)))
    \<or> (fileLines (unread r) = [unread r]
        \<and> (\<exists>eof err b. ReadBufferedLine r [] = (eof, err, b, r\<lparr>unread := []\<rparr>)
                \<and> (err = None \<longrightarrow> b = unread r)
                \<and> (err \<noteq> None \<longrightarrow> defaultBufSize \<le> length (unread r))))
    \<or> (\<exists>l rest. fileLines (unread r) = l # fileLines rest
          \<and> ReadBufferedLine r [] = (False, None, l, r\<lparr>unread := rest\<rparr>)
          \<and> length rest < length (unread r))"
proof (cases "unread r = []")
  case True
  with ReadBufferedLine_at_end_any [of r "[]"] show ?thesis by simp
next
  case ne: False
  show ?thesis
  proof (cases "LF \<in> set (unread r)")
    case False
    from ReadBufferedLine_unterminated_any [OF refl ne False, of "[]"]
    obtain eof err b where rb: "ReadBufferedLine r [] = (eof, err, b, r\<lparr>unread := []\<rparr>)"
      "err = None \<longrightarrow> b = unread r" by auto
    have "err \<noteq> None \<longrightarrow> defaultBufSize \<le> length (unread r)"
    proof (rule impI, rule ccontr)
      assume e: "err \<noteq> None" and "\<not> defaultBufSize \<le> length (unread r)"
      then have "length (unread r) < defaultBufSize" by simp
      from ReadBufferedLine_short [OF refl ne False this, of "[]"] rb(1) e
      show False by simp
    qed
    with rb fileLines_unterminated [OF ne False] show ?thesis by blast
  next
    case True
    then obtain l rest where sp: "unread r = l @ LF # rest" "LF \<notin> set l"
      by (meson split_list_first)
    from ReadBufferedLine_terminated [OF sp, of "[]"]
    have "ReadBufferedLine r [] = (False, None, chompCR l, r\<lparr>unread := rest\<rparr>)" by simp
    moreover have "fileLines (unread r) = chompCR l # fileLines rest"
      using fileLines_terminated [OF sp(2)] sp(1) by simp
    moreover have "length rest < length (unread r)" using sp(1) by simp
    ultimately show ?thesis by blast
  qed
qed

lemma SettingsINI_Load_loop_at_end_any:
  assumes "unread r = []"
  shows "\<exists>x. SettingsINI_Load_loop r si cur = (si, x)"
proof -
  from ReadBufferedLine_at_end_any [OF assms, of "[]"] obtain err where
    "ReadBufferedLine r [] = (True, err, [], r)" by blast
  then show ?thesis
    by (cases err) (simp_all add: SettingsINI_Load_loop.simps [of r si cur] SettingsINI_Load_line_Nil)
qed




lemma SettingsINI_Load_loop_prefix:
  "SettingsINI_Load_loop r si cur = (si', x) \<Longrightarrow>
   \<exists>ls. prefix ls (fileLines (unread r)) \<and> SettingsINI_Load_lines ls si cur = (si', None)"
proof (induction "length (unread r)" arbitrary: r si cur rule: less_induct)
  case less
  note run = less.prems
  have nil: "si' = si \<Longrightarrow> ?case"
    by (rule exI [of _ "[]"]) simp
  from read_cases_any [of r] consider
    (empty) err where "unread r = []" "ReadBufferedLine r [] = (True, err, [], r)"
  | (final) eof err b where "fileLines (unread r) = [unread r]"
      "ReadBufferedLine r [] = (eof, err, b, r\<lparr>unread := []\<rparr>)" "err = None \<longrightarrow> b = unread r"
  | (line) l rest where "fileLines (unread r) = l # fileLines rest"
      "ReadBufferedLine r [] = (False, None, l, r\<lparr>unread := rest\<rparr>)"
      "length rest < length (unread r)"
    by blast
  then show ?case
  proof cases
    case empty
    with SettingsINI_Load_loop_at_end_any [OF empty(1), of si cur] run have "si' = si" by auto
    then show ?thesis by (rule nil)
  next
    case final
    show ?thesis
    proof (cases err)
      case (Some a)
      with final run have "si' = si"
        by (simp add: SettingsINI_Load_loop.simps [of r si cur])
      then show ?thesis by (rule nil)
    next
      case None
      with final have b: "b = unread r" by simp
      show ?thesis
      proof (cases "SettingsINI_Load_line b si cur")
        case (Inl e)
        with final None run have "si' = si"
          by (simp add: SettingsINI_Load_loop.simps [of r si cur])
        then show ?thesis by (rule nil)
      next
        case (Inr p)
        obtain si1 c1 where p: "p = (si1, c1)" by (cases p)
        have "si' = si1"
        proof (cases eof)
          case True
          with final None Inr p run show ?thesis
            by (simp add: SettingsINI_Load_loop.simps [of r si cur])
        next
          case False
          with final None Inr p run
          have "SettingsINI_Load_loop (r\<lparr>unread := []\<rparr>) si1 c1 = (si', x)"
            by (simp add: SettingsINI_Load_loop.simps [of r si cur])
          with SettingsINI_Load_loop_at_end_any [of "r\<lparr>unread := []\<rparr>" si1 c1]
          show ?thesis by auto
        qed
        with Inr p b have "SettingsINI_Load_lines [unread r] si cur = (si', None)" by simp
        with final(1) show ?thesis by (intro exI [of _ "[unread r]"]) simp
      qed
    qed
  next
    case line
    show ?thesis
    proof (cases "SettingsINI_Load_line l si cur")
      case (Inl e)
      with line run have "si' = si"
        by (simp add: SettingsINI_Load_loop.simps [of r si cur])
      then show ?thesis by (rule nil)
    next
      case (Inr p)
      obtain si1 c1 where p: "p = (si1, c1)" by (cases p)
      with line Inr run have "SettingsINI_Load_loop (r\<lparr>unread := rest\<rparr>) si1 c1 = (si', x)"
        by (simp add: SettingsINI_Load_loop.simps [of r si cur])
      with less.hyps [of "r\<lparr>unread := rest\<rparr>" si1 c1] line(3)
      obtain ls where ls: "prefix ls (fileLines rest)"
        "SettingsINI_Load_lines ls si1 c1 = (si', None)" by auto
      with Inr p line(1) show ?thesis
        by (intro exI [of _ "l # ls"]) simp
    qed
  qed
qed

lemma SettingsINI_Load_lines_invariant:
  assumes "SettingsINI_Load_lines ls si cur = (si', x)" and "P si cur"
    and "\<And>b s c s' c'. P s c \<Longrightarrow> SettingsINI_Load_line b s c = Inr (s', c') \<Longrightarrow> P s' c'"
  shows "\<exists>c'. P si' c'"
  using assms(1,2)
proof (induction ls arbitrary: si cur)
  case Nil
  then show ?case by auto
next
  case (Cons l ls)
  show ?case
  proof (cases "SettingsINI_Load_line l si cur")
    case (Inl e)
    with Cons.prems show ?thesis by auto
  next
    case (Inr p)
    obtain si1 c1 where p: "p = (si1, c1)" by (cases p)
    with Inr Cons.prems have "SettingsINI_Load_lines ls si1 c1 = (si', x)" by simp
    moreover have "P si1 c1" using assms(3) [OF Cons.prems(2)] Inr p by simp
    ultimately show ?thesis by (rule Cons.IH)
  qed
qed


section \<open>What TrimSpace returns\<close>

text \<open>
  A string is \<open>trimmed\<close> when it is not empty and neither begins nor ends with a
  white-space code point. Whatever \<open>TrimSpace\<close> returns is trimmed or empty.
\<close>

definition trimmed :: "string \<Rightarrow> bool" where
  "trimmed s = (s \<noteq> [] \<and> leadingSpace s = 0 \<and> trailingSpace s = 0)"

lemma leadingSpace_0_iff: "leadingSpace s = 0 \<longleftrightarrow> (\<forall>e \<in> set spaceRunes. \<not> prefix e s)"
  by (auto simp: leadingSpace_def find_None_iff find_Some_iff spaceRunes_nonempty
      split: option.splits)

lemma trailingSpace_0_iff: "trailingSpace s = 0 \<longleftrightarrow> (\<forall>e \<in> set spaceRunes. \<not> suffix e s)"
  by (auto simp: trailingSpace_def find_None_iff find_Some_iff spaceRunes_nonempty
      split: option.splits)

lemma TrimLeft_no_leading: "leadingSpace (TrimLeft s) = 0"
  by (induction s rule: TrimLeft.induct) (subst TrimLeft.simps, simp)

lemma TrimRight_no_trailing: "trailingSpace (TrimRight s) = 0"
  by (induction s rule: TrimRight.induct) (subst TrimRight.simps, simp)

lemma TrimRight_prefix: "prefix (TrimRight s) s"
proof (induction s rule: TrimRight.induct)
  case (1 s)
  show ?case
  proof (cases "trailingSpace s = 0")
    case True
    then show ?thesis by (simp add: TrimRight.simps [of s])
  next
    case False
    from "1.IH" [OF False] have "prefix (TrimRight (take (length s - trailingSpace s) s)) s"
      by (rule prefix_order.trans) (rule take_is_prefix)
    with False show ?thesis by (simp add: TrimRight.simps [of s])
  qed
qed

lemma TrimRight_keeps_no_leading: "leadingSpace s = 0 \<Longrightarrow> leadingSpace (TrimRight s) = 0"
  unfolding leadingSpace_0_iff
  using TrimRight_prefix [of s] by (meson prefix_order.trans)

lemma TrimLeft_fixed: "leadingSpace s = 0 \<Longrightarrow> TrimLeft s = s"
  by (simp add: TrimLeft.simps [of s])

lemma TrimRight_fixed: "trailingSpace s = 0 \<Longrightarrow> TrimRight s = s"
  by (simp add: TrimRight.simps [of s])

lemma TrimSpace_fixed: "leadingSpace s = 0 \<Longrightarrow> trailingSpace s = 0 \<Longrightarrow> TrimSpace s = s"
  by (simp add: TrimSpace_def TrimLeft_fixed TrimRight_fixed)

lemma TrimSpace_idem: "TrimSpace (TrimSpace s) = TrimSpace s"
  by (rule TrimSpace_fixed)
    (simp_all add: TrimSpace_def TrimRight_no_trailing TrimRight_keeps_no_leading
      TrimLeft_no_leading)

lemma TrimSpace_trimmed: "TrimSpace s \<noteq> [] \<Longrightarrow> trimmed (TrimSpace s)"
  by (simp add: trimmed_def TrimSpace_def TrimRight_no_trailing TrimRight_keeps_no_leading
      TrimLeft_no_leading)

definition pairsTrimmed :: "SettingsINI \<Rightarrow> bool" where
  "pairsTrimmed si =
     (\<forall>h hdr k v. Headers si h = Some hdr \<longrightarrow> Values hdr k = Some v \<longrightarrow> trimmed k \<and> trimmed v)"

lemma SettingsINI_Load_line_cases:
  assumes "SettingsINI_Load_line b si c = Inr (si', c')"
  obtains (same) "si' = si"
  | (header) headerName where
      "si' = si\<lparr>Headers := (Headers si)(headerName \<mapsto> \<lparr>Values = Map.empty\<rparr>)\<rparr>"
  | (first) name v where "TrimSpace name = name" "name \<noteq> []" "TrimSpace v = v" "v \<noteq> []"
      "si' = si\<lparr>Headers := (Headers si)([] \<mapsto> \<lparr>Values = [name \<mapsto> v]\<rparr>)\<rparr>"
  | (pair) name v cur h where "TrimSpace name = name" "name \<noteq> []" "TrimSpace v = v" "v \<noteq> []"
      "Headers si cur = Some h"
      "si' = si\<lparr>Headers := (Headers si)(cur \<mapsto> h\<lparr>Values := (Values h)(name \<mapsto> v)\<rparr>)\<rparr>"
proof -
  let ?line = "TrimSpace b"
  let ?eq = "IndexByte ?line (CHR ''='')"
  let ?name = "TrimSpace (take (nat ?eq) ?line)"
  let ?v = "TrimSpace (drop (nat (?eq + 1)) ?line)"
  note d = SettingsINI_Load_line_def Let_def
  show thesis
  proof (cases "length ?line = 0 \<or> \<not> 2 \<le> length ?line
                \<or> (?line ! 0 = CHR ''/'' \<and> ?line ! 1 = CHR ''/'')")
    case True
    then consider "?line = []" | "?line \<noteq> []" "\<not> 2 \<le> length ?line"
      | "?line \<noteq> []" "2 \<le> length ?line" "?line ! 0 = CHR ''/''" "?line ! 1 = CHR ''/''"
      by fastforce
    then have "si' = si"
    proof cases
      case 1
      with assms show ?thesis by (simp add: d)
    next
      case 2
      with assms show ?thesis by (simp add: d)
    next
      case 3
      with assms show ?thesis by (simp add: d)
    qed
    then show thesis by (rule same)
  next
    case False
    then have f: "?line \<noteq> []" "2 \<le> length ?line"
      and nc: "\<not> (?line ! 0 = CHR ''/'' \<and> ?line ! Suc 0 = CHR ''/'')" by auto
    show thesis
    proof (cases "?line ! 0 = CHR ''[''")
      case True
      with assms f have "\<exists>headerName.
          si' = si\<lparr>Headers := (Headers si)(headerName \<mapsto> \<lparr>Values = Map.empty\<rparr>)\<rparr>"
        by (auto simp: d nc split: if_splits)
      then show thesis using header by blast
    next
      case nb: False
      from assms f nb have g: "?eq \<noteq> - 1" "?name \<noteq> []" "?v \<noteq> []"
        by (simp_all add: d nc split: if_splits)
      have tn: "TrimSpace ?name = ?name" and tv: "TrimSpace ?v = ?v"
        by (simp_all add: TrimSpace_idem)
      show thesis
      proof (cases c)
        case None
        with assms f nb g
        have "si' = si\<lparr>Headers := (Headers si)([] \<mapsto> \<lparr>Values = [?name \<mapsto> ?v]\<rparr>)\<rparr>"
          by (simp add: d nc)
        with tn tv g show thesis using first by blast
      next
        case (Some cur)
        show thesis
        proof (cases "Headers si cur")
          case None
          with assms f nb g Some have "si' = si" by (simp add: d nc)
          then show thesis by (rule same)
        next
          case (Some h)
          with assms f nb g \<open>c = Some cur\<close>
          have "si' = si\<lparr>Headers := (Headers si)(cur \<mapsto> h\<lparr>Values := (Values h)(?name \<mapsto> ?v)\<rparr>)\<rparr>"
            by (simp add: d nc)
          with tn tv g Some show thesis using pair by blast
        qed
      qed
    qed
  qed
qed

lemma SettingsINI_Load_line_pairsTrimmed:
  assumes "pairsTrimmed si" "SettingsINI_Load_line b si c = Inr (si', c')"
  shows "pairsTrimmed si'"
  using assms(2)
proof (cases rule: SettingsINI_Load_line_cases)
  case same
  with assms(1) show ?thesis by simp
next
  case (header headerName)
  show ?thesis
    unfolding pairsTrimmed_def
  proof (intro allI impI)
    fix h hdr k v assume a: "Headers si' h = Some hdr" "Values hdr k = Some v"
    with header have "h \<noteq> headerName" by (auto split: if_splits)
    with a header assms(1) show "trimmed k \<and> trimmed v" by (simp add: pairsTrimmed_def)
  qed
next
  case (first name v0)
  then have t: "trimmed name" "trimmed v0" using TrimSpace_trimmed by metis+
  show ?thesis
    unfolding pairsTrimmed_def
  proof (intro allI impI)
    fix h hdr k v assume a: "Headers si' h = Some hdr" "Values hdr k = Some v"
    show "trimmed k \<and> trimmed v"
    proof (cases "h = []")
      case True
      with a first t show ?thesis by (auto split: if_splits)
    next
      case False
      with a first assms(1) show ?thesis by (simp add: pairsTrimmed_def)
    qed
  qed
next
  case (pair name v0 cur h0)
  then have t: "trimmed name" "trimmed v0" using TrimSpace_trimmed by metis+
  show ?thesis
    unfolding pairsTrimmed_def
  proof (intro allI impI)
    fix h hdr k v assume a: "Headers si' h = Some hdr" "Values hdr k = Some v"
    show "trimmed k \<and> trimmed v"
    proof (cases "h = cur")
      case True
      with a pair have "k = name \<and> v = v0 \<or> Values h0 k = Some v" by (auto split: if_splits)
      with t pair(5) assms(1) show ?thesis by (auto simp: pairsTrimmed_def)
    next
      case False
      with a pair assms(1) show ?thesis by (simp add: pairsTrimmed_def)
    qed
  qed
qed









section \<open>Loading a table\<close>

text \<open>
  The rows a load is to produce from the lines of a file, in the words of the
  specification: the first \<open>skipRows\<close> lines are dropped whatever they hold; of the
  others, the empty lines and the lines whose split gives at most \<open>skipCols\<close> cells are
  dropped; each line left gives the row of its cells from index \<open>skipCols\<close> on.
\<close>

lemma splitSep_nonempty: "splitSep s sep \<noteq> []"
  by (simp add: splitSep.simps [of s sep] split: option.splits)

lemma Split_nonempty: "s \<noteq> [] \<Longrightarrow> Split s sep \<noteq> []"
  by (simp add: Split_def splitSep_nonempty explode.simps [of s])

definition keptRows :: "string \<Rightarrow> int \<Rightarrow> int \<Rightarrow> string list \<Rightarrow> string list list" where
  "keptRows delim skipCols skipRows ls =
     map (\<lambda>l. drop (nat skipCols) (Split l delim))
       (filter (\<lambda>l. l \<noteq> [] \<and> skipCols < int (length (Split l delim)))
          (drop (nat skipRows) ls))"

lemma SpreadsheetDelim_Load_lines_rows:
  "0 \<le> skipCols \<Longrightarrow>
   SpreadsheetDelim_Load_lines ls skipCols skipRows sd c
     = Returns (sd\<lparr>Data := Data sd @ keptRows (delimeter sd) skipCols (skipRows - c) ls\<rparr>, None)"
proof (induction ls arbitrary: sd c)
  case Nil
  then show ?case by (simp add: keptRows_def)
next
  case (Cons l ls)
  show ?case
  proof (cases "c < skipRows")
    case True
    then have "nat (skipRows - c) = Suc (nat (skipRows - (c + 1)))" by simp
    then have "keptRows (delimeter sd) skipCols (skipRows - c) (l # ls)
        = keptRows (delimeter sd) skipCols (skipRows - (c + 1)) ls"
      by (simp add: keptRows_def)
    with True Cons.IH [OF Cons.prems, of sd "c + 1"] show ?thesis
      by (simp add: SpreadsheetDelim_Load_line_def)
  next
    case False
    then have k: "keptRows (delimeter sd) skipCols (skipRows - c) (l # ls)
        = (if l \<noteq> [] \<and> skipCols < int (length (Split l (delimeter sd)))
           then [drop (nat skipCols) (Split l (delimeter sd))] else [])
          @ keptRows (delimeter sd) skipCols (skipRows - c) ls"
      by (simp add: keptRows_def)
    show ?thesis
    proof (cases "l \<noteq> [] \<and> skipCols < int (length (Split l (delimeter sd)))")
      case True
      with False Cons.prems Split_nonempty [of l "delimeter sd"]
      have "SpreadsheetDelim_Load_line l skipCols skipRows sd c
          = Returns (Inr (sd\<lparr>Data := Data sd @ [drop (nat skipCols) (Split l (delimeter sd))]\<rparr>, c))"
        by (simp add: SpreadsheetDelim_Load_line_def Let_def)
      with True k Cons.IH [OF Cons.prems,
          of "sd\<lparr>Data := Data sd @ [drop (nat skipCols) (Split l (delimeter sd))]\<rparr>" c]
      show ?thesis by simp
    next
      case skip: False
      with False Split_nonempty [of l "delimeter sd"]
      have "SpreadsheetDelim_Load_line l skipCols skipRows sd c = Returns (Inr (sd, c))"
        by (auto simp: SpreadsheetDelim_Load_line_def Let_def)
      with skip k Cons.IH [OF Cons.prems, of sd c] show ?thesis by simp
    qed
  qed
qed

text \<open>
  Claim C9, as stated, for every \<open>skipCols\<close>. With \<open>skipCols = -1\<close> the split of the
  line \<open>a,b,c\<close> has more than \<open>skipCols\<close> cells, so the line is not discarded, and the
  slice expression \<open>newData[skipCols:]\<close> panics: no row is appended and \<open>Load\<close> does not
  return.
\<close>

theorem Load_negative_skipCols_panics:
  "SpreadsheetDelim_Load [''f'' \<mapsto> ''a,b,c'' @ [LF]] NoFault (NewSpreadsheetDelim 16 '','') ''f'' (- 1) 0
     = Panics"
proof -
  have "SpreadsheetDelim_Load_lines (fileLines (''a,b,c'' @ [LF])) (- 1) 0
          (NewSpreadsheetDelim 16 '',''\<lparr>sd_Filename := ''f''\<rparr>) 0 = Panics"
    unfolding NewSpreadsheetDelim_def by code_simp
  then show ?thesis
    by (simp add: SpreadsheetDelim_Load_def Open_def NewReader_def
        SpreadsheetDelim_Load_loop_lines NewSpreadsheetDelim_def)
qed

text \<open>
  Claim C9, amended. Let \<open>skipCols\<close> be not negative, the buffer size of the table not
  negative and not above the largest allocation, the file one that can be opened, and the
  operating system without fault. Then \<open>Load(filename, skipCols, skipRows)\<close> returns
  without error and appends to the rows the table has exactly the rows \<open>keptRows\<close>
  describes for the lines of the file: the first \<open>skipRows\<close> lines are discarded whatever
  they hold, the other empty lines give no row, and every other line is split on the
  delimiter and gives no row if the split has at most \<open>skipCols\<close> cells, else the row of
  its cells from index \<open>skipCols\<close> on.
\<close>

theorem SpreadsheetDelim_Load_rows:
  assumes "fname = (if filename = [] then sd_Filename sd else filename)"
    and "fname \<noteq> []" and "fs fname = Some bytes"
    and "0 \<le> sd_buffer sd" and "sd_buffer sd \<le> maxAlloc" and "0 \<le> skipCols"
  shows "SpreadsheetDelim_Load fs NoFault sd filename skipCols skipRows
     = Returns (sd\<lparr>sd_Filename := fname,
                    Data := Data sd @ keptRows (delimeter sd) skipCols skipRows (fileLines bytes)\<rparr>,
                None)"
proof -
  define sd1 where "sd1 = (if length filename = 0 then sd else sd\<lparr>sd_Filename := filename\<rparr>)"
  have sd1: "sd1 = sd\<lparr>sd_Filename := fname\<rparr>" using assms(1) by (simp add: sd1_def)
  have rd: "NewReader NoFault bytes = \<lparr>unread = bytes, broken = False\<rparr>"
    by (simp add: NewReader_def)
  have loop: "SpreadsheetDelim_Load_loop (NewReader NoFault bytes) skipCols skipRows sd1 0
      = Returns (sd1\<lparr>Data := Data sd1 @ keptRows (delimeter sd1) skipCols skipRows (fileLines bytes)\<rparr>,
                 None)"
    using SpreadsheetDelim_Load_loop_lines [of "NewReader NoFault bytes" skipCols skipRows sd1 0]
      SpreadsheetDelim_Load_lines_rows [OF assms(6), of "fileLines bytes" skipRows sd1 0]
    by (simp add: rd)
  have op: "Open fs NoFault fname = Some bytes" using assms(3) by (simp add: Open_def)
  show ?thesis
    using assms(1,2,4,5) op loop
    by (auto simp: SpreadsheetDelim_Load_def Let_def makeFails_NoFault sd1_def [symmetric] sd1)
qed

definition csv1 :: string where
  "csv1 = ''a,b,c'' @ [LF] @ ''1,2'' @ [LF]"

text \<open>
  The example of claim C9, an instance of the amended claim: the file \<open>a,b,c\n1,2\n\<close> with delimiter \<open>,\<close>,
  \<open>skipCols = 1\<close> and \<open>skipRows = 0\<close> gives exactly the rows \<open>[b, c]\<close> and \<open>[2]\<close>.
\<close>

theorem SpreadsheetDelim_Load_rows_witness:
  "''f'' = (if ''f'' = [] then sd_Filename (NewSpreadsheetDelim 16 '','') else ''f'')
   \<and> ''f'' \<noteq> [] \<and> [''f'' \<mapsto> csv1] ''f'' = Some csv1
   \<and> 0 \<le> sd_buffer (NewSpreadsheetDelim 16 '','')
   \<and> sd_buffer (NewSpreadsheetDelim 16 '','') \<le> maxAlloc \<and> (0::int) \<le> 1
   \<and> SpreadsheetDelim_Load [''f'' \<mapsto> csv1] NoFault (NewSpreadsheetDelim 16 '','') ''f'' 1 0
       = Returns (NewSpreadsheetDelim 16 '',''\<lparr>sd_Filename := ''f'',
                    Data := [[''b'', ''c''], [''2'']]\<rparr>, None)"
proof -
  have k: "keptRows '','' 1 0 (fileLines csv1) = [[''b'', ''c''], [''2'']]"
    unfolding csv1_def by code_simp
  have "SpreadsheetDelim_Load [''f'' \<mapsto> csv1] NoFault (NewSpreadsheetDelim 16 '','') ''f'' 1 0
       = Returns (NewSpreadsheetDelim 16 '',''\<lparr>sd_Filename := ''f'',
                    Data := [[''b'', ''c''], [''2'']]\<rparr>, None)"
    using SpreadsheetDelim_Load_rows [of "''f''" "''f''" "NewSpreadsheetDelim 16 '',''"
        "[''f'' \<mapsto> csv1]" csv1 1 0] k
    by (simp add: NewSpreadsheetDelim_def maxAlloc_def)
  then show ?thesis by (simp add: NewSpreadsheetDelim_def maxAlloc_def)
qed

text \<open>
  Claim C3. A successful \<open>Load\<close> replaces the table: none of the rows the table had
  before remains. \<open>SettingsINI.Load\<close> empties its store before it reads, but
  \<open>SpreadsheetDelim.Load\<close> never resets \<open>sd.Data\<close> and appends every row with
  \<open>append(sd.Data, ...)\<close>: loading the file \<open>b\n\<close> into the table with the one row
  \<open>[a]\<close> gives the rows \<open>[a]\<close> and \<open>[b]\<close>.
\<close>

theorem Load_keeps_earlier_rows:
  "SpreadsheetDelim_Load [''f'' \<mapsto> ''b'' @ [LF]] NoFault table1 ''f'' 0 0
     = Returns (table1\<lparr>sd_Filename := ''f'', Data := [[''a''], [''b'']]\<rparr>, None)"
proof -
  have "SpreadsheetDelim_Load_lines (fileLines (''b'' @ [LF])) 0 0 (table1\<lparr>sd_Filename := ''f''\<rparr>) 0
     = Returns (table1\<lparr>sd_Filename := ''f'', Data := [[''a''], [''b'']]\<rparr>, None)"
    unfolding table1_def by code_simp
  then show ?thesis
    by (simp add: SpreadsheetDelim_Load_def Open_def NewReader_def
        SpreadsheetDelim_Load_loop_lines table1_def)
qed

section \<open>Loading a store\<close>

definition ini1 :: string where
  "ini1 = ''x'' @ [LF] @ ''='' @ [LF]"

lemma IndexByte_absent: "IndexByte s c = - 1 \<longleftrightarrow> c \<notin> set s"
  by (simp add: IndexByte_def)

lemma SettingsINI_Load_line_pair_errors:
  assumes "2 \<le> length (TrimSpace b)"
    and "\<not> (TrimSpace b ! 0 = CHR ''/'' \<and> TrimSpace b ! Suc 0 = CHR ''/'')"
    and "TrimSpace b ! 0 \<noteq> CHR ''[''"
    and "CHR ''='' \<notin> set (TrimSpace b)
         \<or> TrimSpace (take (nat (IndexByte (TrimSpace b) (CHR ''=''))) (TrimSpace b)) = []
         \<or> TrimSpace (drop (nat (IndexByte (TrimSpace b) (CHR ''='') + 1)) (TrimSpace b)) = []"
  shows "\<exists>e. SettingsINI_Load_line b si cur = Inl e \<and> etype e = ErrorTypeParsing"
proof -
  have ne: "TrimSpace b \<noteq> []" using assms(1) by auto
  from assms(4) consider "IndexByte (TrimSpace b) (CHR ''='') = - 1"
    | "IndexByte (TrimSpace b) (CHR ''='') \<noteq> - 1"
      "TrimSpace (take (nat (IndexByte (TrimSpace b) (CHR ''=''))) (TrimSpace b)) = []"
    | "IndexByte (TrimSpace b) (CHR ''='') \<noteq> - 1"
      "TrimSpace (take (nat (IndexByte (TrimSpace b) (CHR ''=''))) (TrimSpace b)) \<noteq> []"
      "TrimSpace (drop (nat (IndexByte (TrimSpace b) (CHR ''='') + 1)) (TrimSpace b)) = []"
    using IndexByte_absent by blast
  then show ?thesis
  proof cases
    case 1
    with ne assms(1,3) show ?thesis
      by (simp add: SettingsINI_Load_line_def Let_def assms(2))
  next
    case 2
    with ne assms(1,3) show ?thesis
      by (simp add: SettingsINI_Load_line_def Let_def assms(2))
  next
    case 3
    with ne assms(1,3) show ?thesis
      by (simp add: SettingsINI_Load_line_def Let_def assms(2))
  qed
qed

text \<open>
  Claim C4. Every line that is, after trimming, not empty, not a comment and not a header
  must hold an \<open>=\<close> with a key before and a value after it, and \<open>Load\<close> fails with a
  parse error otherwise, also for a line of length one. All the checks of the loop are
  inside \<open>if len(line) >= 2\<close>, so a line of one byte is passed over without any: the
  file with the two lines \<open>x\<close> and \<open>=\<close> loads without error and leaves the store
  empty. For lines of two bytes and more the code does what the claim says, as the lemma
  \<open>SettingsINI_Load_line_pair_errors\<close> shows.
\<close>

theorem Load_accepts_one_byte_lines:
  "SettingsINI_Load [''f'' \<mapsto> ini1] NoFault (NewSettingsINI 16) ''f''
     = Returns (NewSettingsINI 16\<lparr>si_Filename := ''f''\<rparr>, None)"
proof -
  have a: "fileLines ini1 = [''x'', ''='']" unfolding ini1_def by code_simp
  have b: "TrimSpace ''x'' = ''x''" "TrimSpace ''='' = ''=''" by code_simp+
  show ?thesis
    by (simp add: SettingsINI_Load_def Open_def NewReader_def NewSettingsINI_def
        SettingsINI_Load_loop_lines a SettingsINI_Load_line_def b)
qed


definition store2 :: SettingsINI where
  "store2 = \<lparr>si_buffer = 16, si_Filename = ''f'',
             Headers = [''A'' \<mapsto> \<lparr>Values = [''x'' \<mapsto> ''1'']\<rparr>]\<rparr>"


lemma ini2_trims:
  "TrimSpace ''[A]'' = ''[A]''" "TrimSpace ''x = 1'' = ''x = 1''" "TrimSpace ''[B'' = ''[B''"
  "TrimSpace ''x '' = ''x''" "TrimSpace '' 1'' = ''1''"
  by code_simp+

definition ini3 :: string where
  "ini3 = ''[A]'' @ [LF] @ ''x = 1'' @ [LF]"

lemma ini3_lines: "fileLines ini3 = [''[A]'', ''x = 1'']"
  unfolding ini3_def by code_simp

text \<open>
  Claim C10. After a successful \<open>SettingsINI.Load\<close> every header name in the store
  other than the empty name of the unnamed section is a non-empty string, and every key
  and every value of every section is trimmed: not empty, without white space at its
  start and at its end.
\<close>

theorem Load_stores_trimmed_pairs:
  assumes "SettingsINI_Load fs flt si filename = Returns (si', None)"
  shows "\<forall>h hdr. Headers si' h = Some hdr \<longrightarrow>
           (h \<noteq> [] \<longrightarrow> 0 < length h)
           \<and> (\<forall>k v. Values hdr k = Some v \<longrightarrow> trimmed k \<and> trimmed v)"
proof -
  define fname where "fname = (if length filename = 0 then si_Filename si else filename)"
  define si1 where "si1 = (if length filename = 0 then si else si\<lparr>si_Filename := filename\<rparr>)"
  from assms obtain bytes x where
    loop: "SettingsINI_Load_loop (NewReader flt bytes) (si1\<lparr>Headers := Map.empty\<rparr>) None = (si', x)"
    unfolding SettingsINI_Load_def Let_def fname_def [symmetric] si1_def [symmetric]
    by (auto split: if_splits option.splits prod.splits)
  from SettingsINI_Load_loop_prefix [OF loop] obtain ls where
    ls: "SettingsINI_Load_lines ls (si1\<lparr>Headers := Map.empty\<rparr>) None = (si', None)" by blast
  have "pairsTrimmed (si1\<lparr>Headers := Map.empty\<rparr>)" by (simp add: pairsTrimmed_def)
  with SettingsINI_Load_lines_invariant [OF ls, of "\<lambda>s c. pairsTrimmed s"]
    SettingsINI_Load_line_pairsTrimmed
  have "pairsTrimmed si'" by blast
  then show ?thesis by (auto simp: pairsTrimmed_def)
qed

text \<open>
  An instance of claim C10: the file \<open>[A]\nx = 1\n\<close> loads without error into the
  store with the one pair \<open>x\<close>, \<open>1\<close> under \<open>A\<close>, and both strings are trimmed.
\<close>

theorem Load_stores_trimmed_pairs_witness:
  "SettingsINI_Load [''f'' \<mapsto> ini3] NoFault (NewSettingsINI 16) ''f'' = Returns (store2, None)
   \<and> Values (the (Headers store2 ''A'')) ''x'' = Some ''1''
   \<and> trimmed ''x'' \<and> trimmed ''1''"
proof -
  have run: "SettingsINI_Load [''f'' \<mapsto> ini3] NoFault (NewSettingsINI 16) ''f''
      = Returns (store2, None)"
    by (simp add: SettingsINI_Load_def Open_def NewReader_def NewSettingsINI_def
        SettingsINI_Load_loop_lines ini3_lines SettingsINI_Load_line_def ini2_trims
        IndexByte_def store2_def Let_def)
  have h: "Headers store2 ''A'' = Some \<lparr>Values = [''x'' \<mapsto> ''1'']\<rparr>"
    by (simp add: store2_def)
  from Load_stores_trimmed_pairs [OF run] h
  have "trimmed ''x'' \<and> trimmed ''1''" by fastforce
  with run h show ?thesis by simp
qed




section \<open>The remembered filename\<close>





section \<open>Saving and loading again\<close>

text \<open>
  \<open>Save\<close> writes one line per row or pair, \<open>Load\<close> cuts the file into lines, trims
  and splits them. The lemmas of this section follow a file from the one to the other:
  when splitting the text of a row gives back the row, and when trimming and cutting a
  written pair gives back its key and value.
\<close>

subsection \<open>Rows\<close>

lemma Index_Some_iff:
  "Index s d = Some m \<longleftrightarrow>
     m \<le> length s \<and> prefix d (drop m s) \<and> (\<forall>i<m. \<not> prefix d (drop i s))"
proof (induction s arbitrary: m)
  case Nil
  then show ?case by auto
next
  case (Cons c s)
  show ?case
  proof (cases "prefix d (c # s)")
    case True
    then show ?thesis by (cases m) auto
  next
    case False
    show ?thesis
    proof (cases m)
      case 0
      with False show ?thesis by simp
    next
      case (Suc k)
      have "(\<forall>i<Suc k. \<not> prefix d (drop i (c # s))) \<longleftrightarrow> (\<forall>i<k. \<not> prefix d (drop i s))"
        using False by (auto simp: less_Suc_eq_0_disj)
      with False Suc Cons.IH [of k] show ?thesis by auto
    qed
  qed
qed

lemma all_le_Suc_shift: "(\<forall>i\<le>Suc n. Q i) \<longleftrightarrow> Q 0 \<and> (\<forall>i\<le>n. Q (Suc i))"
proof
  assume a: "\<forall>i\<le>Suc n. Q i"
  then show "Q 0 \<and> (\<forall>i\<le>n. Q (Suc i))" by auto
next
  assume b: "Q 0 \<and> (\<forall>i\<le>n. Q (Suc i))"
  show "\<forall>i\<le>Suc n. Q i"
  proof (intro allI impI)
    fix i assume "i \<le> Suc n"
    with b show "Q i" by (cases i) auto
  qed
qed

lemma Index_None_iff: "Index s d = None \<longleftrightarrow> (\<forall>i\<le>length s. \<not> prefix d (drop i s))"
proof (induction s)
  case Nil
  then show ?case by auto
next
  case (Cons c s)
  have "(\<forall>i\<le>length (c # s). \<not> prefix d (drop i (c # s)))
      \<longleftrightarrow> \<not> prefix d (c # s) \<and> (\<forall>i\<le>length s. \<not> prefix d (drop i s))"
    using all_le_Suc_shift [of "length s" "\<lambda>i. \<not> prefix d (drop i (c # s))"] by simp
  with Cons.IH show ?case by auto
qed

text \<open>The text \<open>Save\<close> writes for a row: its cells with the delimiter between them.\<close>

lemma Save_row_acc:
  "Save_row d i row b = b @ (if row = [] then [] else (if i \<noteq> 0 then d else []) @ Save_row d 0 row [])"
proof (induction row arbitrary: i b)
  case Nil
  then show ?case by simp
next
  case (Cons c cs)
  show ?case
    using Cons.IH [of "i + 1" "(if i \<noteq> 0 then b @ d else b) @ c"] Cons.IH [of 1 c]
    by (cases cs) auto
qed

lemma Save_row_single: "Save_row d 0 [c] [] = c"
  by simp

lemma Save_row_Cons: "cs \<noteq> [] \<Longrightarrow> Save_row d 0 (c # cs) [] = c @ d @ Save_row d 0 cs []"
  using Save_row_acc [of d 1 cs c] by simp

definition cellSafe :: "string \<Rightarrow> string \<Rightarrow> bool" where
  "cellSafe d cell = (LF \<notin> set cell \<and> Index (cell @ butlast d) d = None)"

lemma cellSafe_D:
  assumes "cellSafe d c" "i \<le> length c"
  shows "\<not> prefix d (drop i c @ butlast d)"
proof -
  from assms(1) have "Index (c @ butlast d) d = None" by (simp add: cellSafe_def)
  then have "\<forall>j\<le>length (c @ butlast d). \<not> prefix d (drop j (c @ butlast d))"
    by (simp only: Index_None_iff)
  moreover have "i \<le> length (c @ butlast d)" using assms(2) by simp
  ultimately have "\<not> prefix d (drop i (c @ butlast d))" by blast
  moreover have "drop i (c @ butlast d) = drop i c @ butlast d" using assms(2) by simp
  ultimately show ?thesis by simp
qed

lemma cellSafe_alone:
  assumes "cellSafe d c" "i \<le> length c"
  shows "\<not> prefix d (drop i c)"
proof
  assume "prefix d (drop i c)"
  then have "prefix d (drop i c @ butlast d)" by (rule prefix_prefix)
  with cellSafe_D [OF assms] show False by simp
qed

lemma cellSafe_before_delimiter:
  assumes "cellSafe d c" "d \<noteq> []" "i < length c"
  shows "\<not> prefix d (drop i (c @ d @ rest))"
proof
  assume p: "prefix d (drop i (c @ d @ rest))"
  have no: "\<not> prefix d (drop i c @ butlast d)"
    using assms(1,3) by (simp add: cellSafe_D)
  from p assms(3) have p': "prefix d (drop i c @ d @ rest)" by simp
  have len: "length d \<le> length (drop i c @ butlast d)" using assms(3) by simp
  have "(drop i c @ butlast d) @ [last d] @ rest = drop i c @ d @ rest"
    using assms(2) by simp
  then have "take (length d) (drop i c @ d @ rest) = take (length d) (drop i c @ butlast d)"
    using len by (metis append_eq_conv_conj take_append order_refl take_all diff_is_0_eq' take0 append_Nil2)
  moreover from p' have "take (length d) (drop i c @ d @ rest) = d"
    by (metis append_eq_conv_conj prefix_def)
  ultimately have "prefix d (drop i c @ butlast d)"
    by (metis take_is_prefix)
  with no show False by simp
qed

lemma Index_cell_alone: "cellSafe d c \<Longrightarrow> Index c d = None"
  by (simp add: Index_None_iff cellSafe_alone)

lemma Index_cell_delimiter:
  assumes "cellSafe d c" "d \<noteq> []"
  shows "Index (c @ d @ rest) d = Some (length c)"
  unfolding Index_Some_iff
  using cellSafe_before_delimiter [OF assms] by simp

lemma splitSep_Save_row:
  assumes "d \<noteq> []" "row \<noteq> []" "\<forall>c \<in> set row. cellSafe d c"
  shows "splitSep (Save_row d 0 row []) d = row"
  using assms(2,3)
proof (induction row)
  case Nil
  then show ?case by simp
next
  case (Cons c cs)
  show ?case
  proof (cases "cs = []")
    case True
    with Cons.prems assms(1) show ?thesis
      by (simp add: splitSep.simps [of c d] Index_cell_alone)
  next
    case False
    have c: "cellSafe d c" using Cons.prems by simp
    have "splitSep (c @ d @ Save_row d 0 cs []) d = c # splitSep (Save_row d 0 cs []) d"
      using assms(1) Index_cell_delimiter [OF c assms(1)]
      by (simp add: splitSep.simps [of "c @ d @ Save_row d 0 cs []" d])
    with False Cons show ?thesis by (simp add: Save_row_Cons del: Save_row.simps)
  qed
qed

lemma fileLines_written:
  assumes "\<forall>l \<in> set ls. LF \<notin> set l \<and> (l = [] \<or> last l \<noteq> CR)"
  shows "fileLines (concat (map (\<lambda>l. l @ [LF]) ls)) = ls"
  using assms
proof (induction ls)
  case Nil
  then show ?case by (simp add: fileLines_Nil)
next
  case (Cons l ls)
  then have "chompCR l = l" by (auto simp: chompCR_def)
  with Cons fileLines_terminated [of l "concat (map (\<lambda>l. l @ [LF]) ls)"]
  show ?case by simp
qed

lemma Save_rows_NoFault:
  "Save_rows NoFault d rows w
     = (\<lparr>written = written w @ concat (map (\<lambda>row. Save_row d 0 row [] @ [LF]) rows),
         calls = calls w + length rows\<rparr>, False)"
  by (induction rows arbitrary: w) (simp_all add: WriteString_def)

lemma set_Save_row: "set (Save_row d i row b) \<subseteq> set b \<union> set d \<union> \<Union> (set ` set row)"
proof (induction row arbitrary: i b)
  case Nil
  then show ?case by simp
next
  case (Cons c cs)
  from Cons.IH [of "i + 1" "(if i \<noteq> 0 then b @ d else b) @ c"]
  show ?case by (auto split: if_splits)
qed

definition rowSafe :: "string \<Rightarrow> string list \<Rightarrow> bool" where
  "rowSafe d row =
     (row \<noteq> [] \<and> (\<forall>c \<in> set row. cellSafe d c)
      \<and> Save_row d 0 row [] \<noteq> [] \<and> last (Save_row d 0 row []) \<noteq> CR)"

lemma rowSafe_no_LF:
  assumes "rowSafe d row" "LF \<notin> set d"
  shows "LF \<notin> set (Save_row d 0 row [])"
proof
  assume "LF \<in> set (Save_row d 0 row [])"
  with set_Save_row [of d 0 row "[]"] have "LF \<in> set d \<union> \<Union> (set ` set row)" by auto
  with assms show False by (auto simp: rowSafe_def cellSafe_def)
qed

lemma keptRows_written:
  assumes "d \<noteq> []" "\<forall>row \<in> set rows. rowSafe d row"
  shows "keptRows d 0 0 (map (\<lambda>row. Save_row d 0 row []) rows) = rows"
  using assms(2)
proof (induction rows)
  case Nil
  then show ?case by (simp add: keptRows_def)
next
  case (Cons row rows)
  then have r: "rowSafe d row" by simp
  then have "Split (Save_row d 0 row []) d = row"
    using assms(1) by (simp add: Split_def rowSafe_def splitSep_Save_row)
  moreover have "Save_row d 0 row [] \<noteq> []" "row \<noteq> []" using r by (simp_all add: rowSafe_def)
  ultimately show ?case using Cons by (simp add: keptRows_def)
qed

lemma SpreadsheetDelim_round_trip:
  assumes "fname = (if filename = [] then sd_Filename sd else filename)" "fname \<noteq> []"
    and "delimeter sd \<noteq> []" "LF \<notin> set (delimeter sd)"
    and "\<forall>row \<in> set (Data sd). rowSafe (delimeter sd) row"
    and "0 \<le> buffer" "buffer \<le> maxAlloc"
  shows "\<exists>fs'. SpreadsheetDelim_Save fs NoFault sd filename = (sd, fs', None)
     \<and> SpreadsheetDelim_Load fs' NoFault (NewSpreadsheetDelim buffer (delimeter sd)) fname 0 0
         = Returns (NewSpreadsheetDelim buffer (delimeter sd)
                      \<lparr>sd_Filename := fname, Data := Data sd\<rparr>, None)"
proof -
  define d where "d = delimeter sd"
  define ls where "ls = map (\<lambda>row. Save_row d 0 row []) (Data sd)"
  define bytes where "bytes = concat (map (\<lambda>l. l @ [LF]) ls)"
  define fs' where "fs' = fs(fname \<mapsto> bytes)"
  define new where "new = NewSpreadsheetDelim buffer d\<lparr>sd_Filename := fname\<rparr>"
  have wr: "concat (map (\<lambda>row. Save_row d 0 row [] @ [LF]) (Data sd)) = bytes"
    by (simp add: bytes_def ls_def comp_def)
  have fn: "\<not> (length filename = 0 \<and> length (sd_Filename sd) = 0)"
    "(if length filename = 0 then sd_Filename sd else filename) = fname"
    using assms(1,2) by auto
  have save: "SpreadsheetDelim_Save fs NoFault sd filename = (sd, fs', None)"
    unfolding SpreadsheetDelim_Save_def Let_def fn(2) Save_rows_NoFault d_def [symmetric] wr
    using fn(1) by (simp add: fs'_def)
  have ok: "\<forall>l \<in> set ls. LF \<notin> set l \<and> (l = [] \<or> last l \<noteq> CR)"
  proof
    fix l assume "l \<in> set ls"
    then obtain row where row: "row \<in> set (Data sd)" "l = Save_row d 0 row []"
      by (auto simp: ls_def)
    with assms(5) have rs: "rowSafe d row" by (simp add: d_def)
    from rowSafe_no_LF [OF rs] assms(4) have "LF \<notin> set l" by (simp add: row(2) d_def)
    moreover from rs have "last l \<noteq> CR" by (simp add: rowSafe_def row(2))
    ultimately show "LF \<notin> set l \<and> (l = [] \<or> last l \<noteq> CR)" by simp
  qed
  have lines: "fileLines bytes = ls"
    unfolding bytes_def by (rule fileLines_written [OF ok])
  have kept: "keptRows d 0 0 ls = Data sd"
    unfolding ls_def using assms(3,5) by (intro keptRows_written) (simp_all add: d_def)
  have nb: "\<not> broken (NewReader NoFault bytes)" "unread (NewReader NoFault bytes) = bytes"
    by (simp_all add: NewReader_def)
  have new: "delimeter new = d" "Data new = []" "sd_buffer new = buffer" "sd_Filename new = fname"
    by (simp_all add: new_def NewSpreadsheetDelim_def)
  have loop: "SpreadsheetDelim_Load_loop (NewReader NoFault bytes) 0 0 new 0
      = Returns (new\<lparr>Data := Data sd\<rparr>, None)"
    using SpreadsheetDelim_Load_loop_lines [OF nb(1), of 0 0 new 0]
      SpreadsheetDelim_Load_lines_rows [of 0 ls 0 new 0]
    by (simp add: nb(2) lines new kept)
  have op: "Open fs' NoFault fname = Some bytes" by (simp add: Open_def fs'_def)
  have new': "NewSpreadsheetDelim buffer d\<lparr>sd_Filename := fname\<rparr> = new" by (simp add: new_def)
  have "SpreadsheetDelim_Load fs' NoFault (NewSpreadsheetDelim buffer d) fname 0 0
         = Returns (new\<lparr>Data := Data sd\<rparr>, None)"
    using assms(2,6,7) op loop new
    by (simp add: SpreadsheetDelim_Load_def Let_def makeFails_NoFault new')
  with save show ?thesis by (auto simp: d_def new_def)
qed

subsection \<open>Headers and pairs\<close>

text \<open>
  A key is fit for the file when it is trimmed and holds no line feed and no \<open>=\<close>, and
  does not begin with \<open>[\<close> or \<open>//\<close>; a value when it is trimmed and holds no line
  feed; a header name when it holds no line feed. A store is valid when all its header
  names, keys and values are. \<open>Add\<close> and \<open>Set\<close> with such arguments keep a store
  valid (\<open>validStore_Add\<close>, \<open>validStore_Set\<close>).
\<close>

definition keyOK :: "string \<Rightarrow> bool" where
  "keyOK k = (trimmed k \<and> LF \<notin> set k \<and> CHR ''='' \<notin> set k \<and> hd k \<noteq> CHR ''[''
              \<and> \<not> prefix ''//'' k)"

definition valueOK :: "string \<Rightarrow> bool" where
  "valueOK v = (trimmed v \<and> LF \<notin> set v)"

definition validStore :: "SettingsINI \<Rightarrow> bool" where
  "validStore si =
     (\<forall>h hdr. Headers si h = Some hdr \<longrightarrow>
        LF \<notin> set h \<and> (\<forall>k v. Values hdr k = Some v \<longrightarrow> keyOK k \<and> valueOK v))"

lemma spaceRunes_blank:
  "\<forall>e \<in> set spaceRunes. CHR '' '' \<notin> set (tl e) \<and> CHR '' '' \<notin> set (butlast e)"
  "\<forall>e \<in> set spaceRunes. (hd e = CHR '' '' \<longrightarrow> e = '' '') \<and> (last e = CHR '' '' \<longrightarrow> e = '' '')"
  "\<forall>e \<in> set spaceRunes. hd e \<noteq> CHR ''['' \<and> last e \<noteq> CHR '']''"
  "'' '' \<in> set spaceRunes" "[CR] \<in> set spaceRunes"
  by (simp_all add: spaceRunes_def)

lemma find_SomeD: "find P xs = Some x \<Longrightarrow> x \<in> set xs \<and> P x"
  by (induction xs) (auto split: if_splits)

lemma leadingSpace_append_blank:
  assumes "leadingSpace k = 0" "k \<noteq> []"
  shows "leadingSpace (k @ CHR '' '' # y) = 0"
  unfolding leadingSpace_0_iff
proof
  fix e assume e: "e \<in> set spaceRunes"
  show "\<not> prefix e (k @ CHR '' '' # y)"
  proof
    assume "prefix e (k @ CHR '' '' # y)"
    then consider "prefix e k" | us where "e = k @ us" "prefix us (CHR '' '' # y)"
      by (auto simp: prefix_append)
    then show False
    proof cases
      case 1
      with assms(1) e show False by (simp add: leadingSpace_0_iff)
    next
      case 2
      show False
      proof (cases us)
        case Nil
        with 2 have "prefix e k" by simp
        with assms(1) e show False by (simp add: leadingSpace_0_iff)
      next
        case (Cons u us')
        with 2 have "u = CHR '' ''" by simp
        with 2(1) Cons assms(2) have "CHR '' '' \<in> set (tl e)" by (cases k) auto
        with spaceRunes_blank(1) e show False by blast
      qed
    qed
  qed
qed

lemma trailingSpace_blank_append:
  assumes "trailingSpace v = 0" "v \<noteq> []"
  shows "trailingSpace (y @ CHR '' '' # v) = 0"
  unfolding trailingSpace_0_iff
proof
  fix e assume e: "e \<in> set spaceRunes"
  show "\<not> suffix e (y @ CHR '' '' # v)"
  proof
    assume "suffix e (y @ CHR '' '' # v)"
    then have "suffix e ((y @ [CHR '' '']) @ v)" by simp
    then consider "suffix e v" | us where "e = us @ v" "suffix us (y @ [CHR '' ''])"
      unfolding suffix_append by blast
    then show False
    proof cases
      case 1
      with assms(1) e show False by (simp add: trailingSpace_0_iff)
    next
      case 2
      show False
      proof (cases "us = []")
        case True
        with 2 have "suffix e v" by simp
        with assms(1) e show False by (simp add: trailingSpace_0_iff)
      next
        case False
        from 2(2) obtain zs where "y @ '' '' = zs @ us" by (auto simp: suffix_def)
        with False have "last us = CHR '' ''" by (metis last_appendR last_snoc)
        with False have "CHR '' '' \<in> set us" by (metis last_in_set)
        with 2(1) assms(2) have "CHR '' '' \<in> set (butlast e)" by (simp add: butlast_append)
        with spaceRunes_blank(1) e show False by blast
      qed
    qed
  qed
qed

lemma leadingSpace_blank: "leadingSpace (CHR '' '' # s) = 1"
proof -
  have "prefix '' '' (CHR '' '' # s)" by simp
  with spaceRunes_blank(4) have "find (\<lambda>e. prefix e (CHR '' '' # s)) spaceRunes \<noteq> None"
    by (auto simp: find_None_iff)
  then obtain e where f: "find (\<lambda>e. prefix e (CHR '' '' # s)) spaceRunes = Some e" by auto
  then have e: "e \<in> set spaceRunes" "prefix e (CHR '' '' # s)"
    by (auto dest: find_SomeD)
  from e(1) have "e \<noteq> []" by (rule spaceRunes_nonempty)
  then obtain a e' where "e = a # e'" by (cases e) auto
  with e(2) have "hd e = CHR '' ''" by simp
  with e(1) have "e = '' ''" using spaceRunes_blank(2) by blast
  with f show ?thesis by (simp add: leadingSpace_def)
qed

lemma trailingSpace_blank: "trailingSpace (s @ '' '') = 1"
proof -
  have "suffix '' '' (s @ '' '')" by (simp add: suffix_def)
  with spaceRunes_blank(4) have "find (\<lambda>e. suffix e (s @ '' '')) spaceRunes \<noteq> None"
    by (auto simp: find_None_iff)
  then obtain e where f: "find (\<lambda>e. suffix e (s @ '' '')) spaceRunes = Some e" by auto
  then have e: "e \<in> set spaceRunes" "suffix e (s @ '' '')"
    by (auto dest: find_SomeD)
  from e(1) have ne: "e \<noteq> []" by (rule spaceRunes_nonempty)
  from e(2) obtain zs where "s @ '' '' = zs @ e" by (auto simp: suffix_def)
  with ne have "last e = CHR '' ''" by (metis last_appendR last_snoc)
  with e(1) have "e = '' ''" using spaceRunes_blank(2) by blast
  with f show ?thesis by (simp add: trailingSpace_def)
qed

lemma TrimSpace_key: 
  assumes "trimmed k"
  shows "TrimSpace (k @ '' '') = k"
proof -
  from assms have k: "k \<noteq> []" "leadingSpace k = 0" "trailingSpace k = 0"
    by (simp_all add: trimmed_def)
  have "leadingSpace (k @ '' '') = 0" using leadingSpace_append_blank [OF k(2) k(1), of "[]"] by simp
  then have "TrimLeft (k @ '' '') = k @ '' ''" by (rule TrimLeft_fixed)
  moreover have "TrimRight (k @ '' '') = TrimRight k"
    by (subst TrimRight.simps) (simp add: trailingSpace_blank)
  ultimately show ?thesis using k(3) by (simp add: TrimSpace_def TrimRight_fixed)
qed

lemma TrimSpace_value:
  assumes "trimmed v"
  shows "TrimSpace (CHR '' '' # v) = v"
proof -
  from assms have v: "v \<noteq> []" "leadingSpace v = 0" "trailingSpace v = 0"
    by (simp_all add: trimmed_def)
  have "TrimLeft (CHR '' '' # v) = TrimLeft v"
    by (subst TrimLeft.simps) (simp add: leadingSpace_blank)
  with v show ?thesis by (simp add: TrimSpace_def TrimLeft_fixed TrimRight_fixed)
qed

definition pairLine :: "string \<Rightarrow> string \<Rightarrow> string" where
  "pairLine k v = k @ '' = '' @ v"

lemma TrimSpace_pairLine:
  assumes "trimmed k" "trimmed v"
  shows "TrimSpace (pairLine k v) = pairLine k v"
proof -
  from assms have k: "k \<noteq> []" "leadingSpace k = 0" and v: "v \<noteq> []" "trailingSpace v = 0"
    by (simp_all add: trimmed_def)
  have "leadingSpace (pairLine k v) = 0"
    using leadingSpace_append_blank [OF k(2) k(1), of "''= '' @ v"] by (simp add: pairLine_def)
  moreover have "trailingSpace (pairLine k v) = 0"
    using trailingSpace_blank_append [OF v(2) v(1), of "k @ '' =''"] by (simp add: pairLine_def)
  ultimately show ?thesis by (rule TrimSpace_fixed)
qed

definition headerLine :: "string \<Rightarrow> string" where
  "headerLine h = CHR ''['' # h @ '']''"

lemma TrimSpace_headerLine: "TrimSpace (headerLine h) = headerLine h"
proof (rule TrimSpace_fixed)
  show "leadingSpace (headerLine h) = 0"
    unfolding leadingSpace_0_iff
  proof
    fix e assume e: "e \<in> set spaceRunes"
    then have "e \<noteq> []" by (rule spaceRunes_nonempty)
    then obtain a e' where ae: "e = a # e'" by (cases e) auto
    from e spaceRunes_blank(3) have "hd e \<noteq> CHR ''[''" by blast
    with ae show "\<not> prefix e (headerLine h)" by (simp add: headerLine_def)
  qed
  show "trailingSpace (headerLine h) = 0"
    unfolding trailingSpace_0_iff
  proof
    fix e assume e: "e \<in> set spaceRunes"
    then have ne: "e \<noteq> []" by (rule spaceRunes_nonempty)
    show "\<not> suffix e (headerLine h)"
    proof
      assume "suffix e (headerLine h)"
      then obtain zs where "(CHR ''['' # h) @ '']'' = zs @ e"
        by (auto simp: suffix_def headerLine_def)
      with ne have "last e = CHR '']''" by (metis last_appendR last_snoc)
      with e spaceRunes_blank(3) show False by blast
    qed
  qed
qed

text \<open>What the loop body does with a pair once the line is accepted.\<close>

definition storePair ::
  "SettingsINI \<Rightarrow> string option \<Rightarrow> string \<Rightarrow> string \<Rightarrow> SettingsINI \<times> string option" where
  "storePair si cur k v =
     (case cur of
        None \<Rightarrow> (si\<lparr>Headers := (Headers si)([] \<mapsto> \<lparr>Values = [k \<mapsto> v]\<rparr>)\<rparr>, Some [])
      | Some c \<Rightarrow>
          (case Headers si c of
             None \<Rightarrow> (si, Some c)
           | Some h \<Rightarrow>
               (si\<lparr>Headers := (Headers si)(c \<mapsto> h\<lparr>Values := (Values h)(k \<mapsto> v)\<rparr>)\<rparr>, Some c)))"

lemma pairLine_facts:
  assumes "keyOK k" "valueOK v"
  shows "2 \<le> length (pairLine k v)"
    and "\<not> (pairLine k v ! 0 = CHR ''/'' \<and> pairLine k v ! Suc 0 = CHR ''/'')"
    and "pairLine k v ! 0 \<noteq> CHR ''[''"
    and "IndexByte (pairLine k v) (CHR ''='') = int (length k) + 1"
    and "take (Suc (length k)) (pairLine k v) = k @ '' ''"
    and "drop (Suc (Suc (length k))) (pairLine k v) = CHR '' '' # v"
proof -
  from assms(1) have k: "k \<noteq> []" "CHR ''='' \<notin> set k" "hd k \<noteq> CHR ''[''" "\<not> prefix ''//'' k"
    by (simp_all add: keyOK_def trimmed_def)
  show "2 \<le> length (pairLine k v)" by (simp add: pairLine_def)
  show "pairLine k v ! 0 \<noteq> CHR ''[''"
    using k(1,3) by (cases k) (simp_all add: pairLine_def)
  show "\<not> (pairLine k v ! 0 = CHR ''/'' \<and> pairLine k v ! Suc 0 = CHR ''/'')"
  proof (cases k)
    case Nil
    with k(1) show ?thesis by simp
  next
    case (Cons a k')
    show ?thesis
    proof (cases k')
      case Nil
      with Cons show ?thesis by (simp add: pairLine_def)
    next
      case (Cons b k'')
      with \<open>k = a # k'\<close> k(4) show ?thesis by (auto simp: pairLine_def)
    qed
  qed
  have tw: "takeWhile (\<lambda>x. x \<noteq> CHR ''='') (pairLine k v) = k @ '' ''"
  proof -
    have "takeWhile (\<lambda>x. x \<noteq> CHR ''='') ((k @ '' '') @ CHR ''='' # CHR '' '' # v) = k @ '' ''"
      using k(2) by (subst takeWhile_tail) auto
    then show ?thesis by (simp add: pairLine_def)
  qed
  show "IndexByte (pairLine k v) (CHR ''='') = int (length k) + 1"
    unfolding IndexByte_def tw by (simp add: pairLine_def)
  show "take (Suc (length k)) (pairLine k v) = k @ '' ''" by (simp add: pairLine_def)
  show "drop (Suc (Suc (length k))) (pairLine k v) = CHR '' '' # v" by (simp add: pairLine_def)
qed

lemma SettingsINI_Load_line_pairLine:
  assumes "keyOK k" "valueOK v"
  shows "SettingsINI_Load_line (pairLine k v) si cur = Inr (storePair si cur k v)"
proof -
  let ?l = "pairLine k v"
  from assms have t: "trimmed k" "trimmed v" by (simp_all add: keyOK_def valueOK_def)
  then have ne: "k \<noteq> []" "v \<noteq> []" by (simp_all add: trimmed_def)
  note f = pairLine_facts [OF assms]
  have tl: "TrimSpace ?l = ?l" by (rule TrimSpace_pairLine [OF t])
  have lne: "?l \<noteq> []" using f(1) by auto
  have n1: "nat (int (length k) + 1) = Suc (length k)"
    and n2: "nat (int (length k) + 1 + 1) = Suc (Suc (length k))" by simp_all
  have nm: "TrimSpace (take (nat (IndexByte ?l (CHR ''=''))) ?l) = k"
    unfolding f(4) n1 f(5) by (rule TrimSpace_key [OF t(1)])
  have vl: "TrimSpace (drop (nat (IndexByte ?l (CHR ''='') + 1)) ?l) = v"
    unfolding f(4) n2 f(6) by (rule TrimSpace_value [OF t(2)])
  have ix: "IndexByte ?l (CHR ''='') \<noteq> - 1" unfolding f(4) by simp
  show ?thesis
    unfolding SettingsINI_Load_line_def Let_def tl nm vl
    using lne f(1) f(3) ix ne
    by (simp add: f(2) storePair_def split: option.splits)
qed

lemma headerLine_facts:
  shows "2 \<le> length (headerLine h)" and "headerLine h ! 0 = CHR ''[''"
    and "headerLine h ! (length (headerLine h) - 1) = CHR '']''"
    and "take (length (headerLine h) - 1 - 1) (drop 1 (headerLine h)) = h"
  by (simp_all add: headerLine_def nth_append)

lemma SettingsINI_Load_line_headerLine:
  assumes "h \<noteq> []" "Headers si h = None"
  shows "SettingsINI_Load_line (headerLine h) si cur
     = Inr (si\<lparr>Headers := (Headers si)(h \<mapsto> \<lparr>Values = Map.empty\<rparr>)\<rparr>, Some h)"
proof -
  note f = headerLine_facts [of h]
  have lne: "headerLine h \<noteq> []" using f(1) by auto
  have nc: "\<not> (headerLine h ! 0 = CHR ''/'' \<and> headerLine h ! Suc 0 = CHR ''/'')"
    using f(2) by simp
  show ?thesis
    unfolding SettingsINI_Load_line_def Let_def TrimSpace_headerLine f(4)
    using lne f(1,2,3) assms by (simp add: nc)
qed

definition lookup :: "SettingsINI \<Rightarrow> string \<Rightarrow> string \<Rightarrow> string option" where
  "lookup si h k = (case Headers si h of None \<Rightarrow> None | Some hdr \<Rightarrow> Values hdr k)"

lemma SettingsINI_Get_lookup:
  "SettingsINI_Get si h k = (case lookup si h k of None \<Rightarrow> ([], False) | Some v \<Rightarrow> (v, True))"
  by (simp add: SettingsINI_Get_def lookup_def split: option.splits)

lemma steps_pairs:
  assumes "\<forall>k \<in> set ks. keyOK k \<and> valueOK (val k)" "Headers s c \<noteq> None"
  shows "\<exists>s'. SettingsINI_Load_steps (map (\<lambda>k. pairLine k (val k)) ks) s (Some c) = Inr (s', Some c)
      \<and> dom (Headers s') = dom (Headers s)
      \<and> si_Filename s' = si_Filename s \<and> si_buffer s' = si_buffer s
      \<and> (\<forall>h k. lookup s' h k = (if h = c \<and> k \<in> set ks then Some (val k) else lookup s h k))"
  using assms
proof (induction ks arbitrary: s)
  case Nil
  then show ?case by simp
next
  case (Cons k ks)
  from Cons.prems(2) obtain h0 where h0: "Headers s c = Some h0" by auto
  define s1 where "s1 = s\<lparr>Headers := (Headers s)(c \<mapsto> h0\<lparr>Values := (Values h0)(k \<mapsto> val k)\<rparr>)\<rparr>"
  have ok: "keyOK k" "valueOK (val k)" using Cons.prems(1) by simp_all
  have step: "SettingsINI_Load_line (pairLine k (val k)) s (Some c) = Inr (s1, Some c)"
    using SettingsINI_Load_line_pairLine [OF ok, of s "Some c"] h0
    by (simp add: storePair_def s1_def)
  have l1: "lookup s1 h k' = (if h = c \<and> k' = k then Some (val k) else lookup s h k')" for h k'
    using h0 by (simp add: lookup_def s1_def)
  have d1: "dom (Headers s1) = dom (Headers s)" using h0 by (auto simp: s1_def)
  have f1: "si_Filename s1 = si_Filename s" "si_buffer s1 = si_buffer s" by (simp_all add: s1_def)
  have "\<forall>k \<in> set ks. keyOK k \<and> valueOK (val k)" "Headers s1 c \<noteq> None"
    using Cons.prems(1) by (simp_all add: s1_def)
  from Cons.IH [OF this] obtain s' where s':
    "SettingsINI_Load_steps (map (\<lambda>k. pairLine k (val k)) ks) s1 (Some c) = Inr (s', Some c)"
    "dom (Headers s') = dom (Headers s1)"
    "si_Filename s' = si_Filename s1" "si_buffer s' = si_buffer s1"
    "\<forall>h k. lookup s' h k = (if h = c \<and> k \<in> set ks then Some (val k) else lookup s1 h k)"
    by blast
  have "SettingsINI_Load_steps (map (\<lambda>k. pairLine k (val k)) (k # ks)) s (Some c) = Inr (s', Some c)"
    using step s'(1) by simp
  moreover have "\<forall>h k'. lookup s' h k'
      = (if h = c \<and> k' \<in> set (k # ks) then Some (val k') else lookup s h k')"
    using s'(5) l1 by auto
  ultimately show ?case using s'(2,3,4) d1 f1 by auto
qed

lemma steps_unnamed:
  assumes "\<forall>k \<in> set ks. keyOK k \<and> valueOK (val k)" "Headers s = Map.empty"
  shows "\<exists>s' c'. SettingsINI_Load_steps (map (\<lambda>k. pairLine k (val k)) ks) s None = Inr (s', c')
      \<and> dom (Headers s') \<subseteq> {[]}
      \<and> si_Filename s' = si_Filename s \<and> si_buffer s' = si_buffer s
      \<and> (\<forall>h k. lookup s' h k = (if h = [] \<and> k \<in> set ks then Some (val k) else None))"
proof (cases ks)
  case Nil
  with assms(2) show ?thesis by (simp add: lookup_def)
next
  case (Cons k ks')
  define s1 where "s1 = s\<lparr>Headers := (Headers s)([] \<mapsto> \<lparr>Values = [k \<mapsto> val k]\<rparr>)\<rparr>"
  have ok: "keyOK k" "valueOK (val k)" using assms(1) Cons by simp_all
  have step: "SettingsINI_Load_line (pairLine k (val k)) s None = Inr (s1, Some [])"
    using SettingsINI_Load_line_pairLine [OF ok, of s None] by (simp add: storePair_def s1_def)
  have l1: "lookup s1 h k' = (if h = [] \<and> k' = k then Some (val k) else None)" for h k'
    using assms(2) by (simp add: lookup_def s1_def)
  have d1: "dom (Headers s1) = {[]}" using assms(2) by (auto simp: s1_def)
  have "\<forall>k \<in> set ks'. keyOK k \<and> valueOK (val k)" "Headers s1 [] \<noteq> None"
    using assms(1) Cons by (simp_all add: s1_def)
  from steps_pairs [OF this] obtain s' where s':
    "SettingsINI_Load_steps (map (\<lambda>k. pairLine k (val k)) ks') s1 (Some []) = Inr (s', Some [])"
    "dom (Headers s') = dom (Headers s1)"
    "si_Filename s' = si_Filename s1" "si_buffer s' = si_buffer s1"
    "\<forall>h k. lookup s' h k = (if h = [] \<and> k \<in> set ks' then Some (val k) else lookup s1 h k)"
    by blast
  have "SettingsINI_Load_steps (map (\<lambda>k. pairLine k (val k)) ks) s None = Inr (s', Some [])"
    using step s'(1) Cons by simp
  moreover have "\<forall>h k'. lookup s' h k' = (if h = [] \<and> k' \<in> set ks then Some (val k') else None)"
    using s'(5) l1 Cons by auto
  moreover have "si_Filename s' = si_Filename s" "si_buffer s' = si_buffer s"
    using s'(3,4) by (simp_all add: s1_def)
  ultimately show ?thesis using s'(2) d1 by auto
qed

definition sectionLines :: "(string \<Rightarrow> string \<Rightarrow> string) \<Rightarrow> (string \<Rightarrow> string list) \<Rightarrow> string list \<Rightarrow> string list" where
  "sectionLines val ko hs =
     concat (map (\<lambda>h. if h = [] then [] else headerLine h # map (\<lambda>k. pairLine k (val h k)) (ko h)) hs)"

lemma sectionLines_Cons:
  "sectionLines val ko (h # hs)
     = (if h = [] then [] else headerLine h # map (\<lambda>k. pairLine k (val h k)) (ko h))
       @ sectionLines val ko hs"
  by (simp add: sectionLines_def)

lemma steps_sections:
  assumes "distinct hs" "\<forall>h \<in> set hs. h \<noteq> [] \<longrightarrow> Headers s h = None"
    and "\<forall>h \<in> set hs. \<forall>k \<in> set (ko h). keyOK k \<and> valueOK (val h k)"
  shows "\<exists>s' c'. SettingsINI_Load_steps (sectionLines val ko hs) s c = Inr (s', c')
      \<and> si_Filename s' = si_Filename s \<and> si_buffer s' = si_buffer s
      \<and> (\<forall>h k. lookup s' h k =
            (if h \<in> set hs \<and> h \<noteq> [] then (if k \<in> set (ko h) then Some (val h k) else None)
             else lookup s h k))"
  using assms
proof (induction hs arbitrary: s c)
  case Nil
  then show ?case by (simp add: sectionLines_def)
next
  case (Cons h hs)
  have rest: "distinct hs" "h \<notin> set hs"
    "\<forall>h \<in> set hs. \<forall>k \<in> set (ko h). keyOK k \<and> valueOK (val h k)"
    using Cons.prems by simp_all
  show ?case
  proof (cases "h = []")
    case True
    have "\<forall>h \<in> set hs. h \<noteq> [] \<longrightarrow> Headers s h = None" using Cons.prems(2) by simp
    from Cons.IH [OF rest(1) this rest(3), of c] obtain s' c' where s':
      "SettingsINI_Load_steps (sectionLines val ko hs) s c = Inr (s', c')"
      "si_Filename s' = si_Filename s" "si_buffer s' = si_buffer s"
      "\<forall>h k. lookup s' h k =
            (if h \<in> set hs \<and> h \<noteq> [] then (if k \<in> set (ko h) then Some (val h k) else None)
             else lookup s h k)" by blast
    have "SettingsINI_Load_steps (sectionLines val ko (h # hs)) s c = Inr (s', c')"
      using s'(1) True by (simp add: sectionLines_Cons)
    moreover have "\<forall>h' k. lookup s' h' k =
            (if h' \<in> set (h # hs) \<and> h' \<noteq> [] then (if k \<in> set (ko h') then Some (val h' k) else None)
             else lookup s h' k)"
      using s'(4) True by auto
    ultimately show ?thesis using s'(2,3) by blast
  next
    case False
    have hn: "Headers s h = None" using Cons.prems(2) False by simp
    define s1 where "s1 = s\<lparr>Headers := (Headers s)(h \<mapsto> \<lparr>Values = Map.empty\<rparr>)\<rparr>"
    have st1: "SettingsINI_Load_line (headerLine h) s c = Inr (s1, Some h)"
      unfolding s1_def by (rule SettingsINI_Load_line_headerLine [OF False hn])
    have l1: "lookup s1 h' k = lookup s h' k" for h' k
      using hn by (simp add: lookup_def s1_def)
    have "\<forall>k \<in> set (ko h). keyOK k \<and> valueOK (val h k)" "Headers s1 h \<noteq> None"
      using Cons.prems(3) by (simp_all add: s1_def)
    from steps_pairs [OF this] obtain s2 where s2:
      "SettingsINI_Load_steps (map (\<lambda>k. pairLine k (val h k)) (ko h)) s1 (Some h) = Inr (s2, Some h)"
      "dom (Headers s2) = dom (Headers s1)"
      "si_Filename s2 = si_Filename s1" "si_buffer s2 = si_buffer s1"
      "\<forall>h' k. lookup s2 h' k = (if h' = h \<and> k \<in> set (ko h) then Some (val h k) else lookup s1 h' k)"
      by blast
    have sec: "SettingsINI_Load_steps (headerLine h # map (\<lambda>k. pairLine k (val h k)) (ko h)) s c
        = Inr (s2, Some h)"
      using st1 s2(1) by simp
    have "\<forall>h' \<in> set hs. h' \<noteq> [] \<longrightarrow> Headers s2 h' = None"
    proof (intro ballI impI)
      fix h' assume h': "h' \<in> set hs" "h' \<noteq> []"
      with Cons.prems(2) have "Headers s h' = None" by simp
      moreover from h' rest(2) have "h' \<noteq> h" by auto
      ultimately have "h' \<notin> dom (Headers s1)" by (auto simp: s1_def)
      with s2(2) show "Headers s2 h' = None" by auto
    qed
    from Cons.IH [OF rest(1) this rest(3), of "Some h"] obtain s' c' where s':
      "SettingsINI_Load_steps (sectionLines val ko hs) s2 (Some h) = Inr (s', c')"
      "si_Filename s' = si_Filename s2" "si_buffer s' = si_buffer s2"
      "\<forall>h k. lookup s' h k =
            (if h \<in> set hs \<and> h \<noteq> [] then (if k \<in> set (ko h) then Some (val h k) else None)
             else lookup s2 h k)" by blast
    have "SettingsINI_Load_steps (sectionLines val ko (h # hs)) s c = Inr (s', c')"
      using SettingsINI_Load_steps_append [OF sec, of "sectionLines val ko hs"] s'(1) False
      by (simp add: sectionLines_Cons)
    moreover have "\<forall>h' k. lookup s' h' k =
            (if h' \<in> set (h # hs) \<and> h' \<noteq> [] then (if k \<in> set (ko h') then Some (val h' k) else None)
             else lookup s h' k)"
    proof (intro allI)
      fix h' k
      show "lookup s' h' k =
            (if h' \<in> set (h # hs) \<and> h' \<noteq> [] then (if k \<in> set (ko h') then Some (val h' k) else None)
             else lookup s h' k)"
      proof (cases "h' \<in> set hs \<and> h' \<noteq> []")
        case True
        with s'(4) show ?thesis by simp
      next
        case nh: False
        then have "lookup s' h' k = lookup s2 h' k" using s'(4) by auto
        also have "\<dots> = (if h' = h \<and> k \<in> set (ko h) then Some (val h k) else lookup s h' k)"
          using s2(5) l1 by simp
        finally show ?thesis
          using nh False hn by (auto simp: lookup_def)
      qed
    qed
    moreover have "si_Filename s' = si_Filename s" "si_buffer s' = si_buffer s"
      using s'(2,3) s2(3,4) by (simp_all add: s1_def)
    ultimately show ?thesis by blast
  qed
qed

lemma Save_values_NoFault:
  assumes "Headers si h = Some hdr" "set ks \<subseteq> dom (Values hdr)"
  shows "Save_values NoFault hdr ks w
     = (\<lparr>written = written w
             @ concat (map (\<lambda>l. l @ [LF]) (map (\<lambda>k. pairLine k (the (lookup si h k))) ks)),
         calls = calls w + length ks\<rparr>, False)"
  using assms(2)
proof (induction ks arbitrary: w)
  case Nil
  then show ?case by simp
next
  case (Cons k ks)
  then obtain v where v: "Values hdr k = Some v" by auto
  with assms(1) have lk: "the (lookup si h k) = v" by (simp add: lookup_def)
  have "set ks \<subseteq> dom (Values hdr)" using Cons.prems by simp
  from Cons.IH [OF this] v lk show ?case
    by (simp add: WriteString_def pairLine_def)
qed

lemma Save_headers_NoFault:
  assumes "set hs \<subseteq> dom (Headers si)"
    and "\<forall>h hdr. Headers si h = Some hdr \<longrightarrow> set (ko h) \<subseteq> dom (Values hdr)"
  shows "\<exists>n. Save_headers NoFault (Headers si) ko hs w
     = (\<lparr>written = written w
             @ concat (map (\<lambda>l. l @ [LF]) (sectionLines (\<lambda>h k. the (lookup si h k)) ko hs)),
         calls = n\<rparr>, None)"
  using assms(1)
proof (induction hs arbitrary: w)
  case Nil
  have "w = \<lparr>written = written w, calls = calls w\<rparr>" by (cases w) simp
  then have "\<exists>n. w = \<lparr>written = written w, calls = n\<rparr>" by (rule exI)
  then show ?case by (simp add: sectionLines_def)
next
  case (Cons h hs)
  then obtain hdr where hdr: "Headers si h = Some hdr" by auto
  have sub: "set hs \<subseteq> dom (Headers si)" using Cons.prems by simp
  show ?case
  proof (cases "h = []")
    case True
    with Cons.IH [OF sub, of w] hdr show ?thesis by (simp add: sectionLines_Cons)
  next
    case False
    define w1 where "w1 = \<lparr>written = written w @ headerLine h @ [LF], calls = calls w + 1\<rparr>"
    have a: "WriteString NoFault w ([CHR ''[''] @ h @ '']'' @ [LF]) = (w1, False)"
      by (simp add: WriteString_def w1_def headerLine_def)
    have ks: "set (ko h) \<subseteq> dom (Values hdr)" using assms(2) hdr by blast
    define w2 where "w2 = \<lparr>written = written w1
             @ concat (map (\<lambda>l. l @ [LF]) (map (\<lambda>k. pairLine k (the (lookup si h k))) (ko h))),
         calls = calls w1 + length (ko h)\<rparr>"
    have b: "Save_values NoFault hdr (ko h) w1 = (w2, False)"
      unfolding w2_def by (rule Save_values_NoFault [OF hdr ks])
    from Cons.IH [OF sub, of w2] obtain n where
      c: "Save_headers NoFault (Headers si) ko hs w2
         = (\<lparr>written = written w2
             @ concat (map (\<lambda>l. l @ [LF]) (sectionLines (\<lambda>h k. the (lookup si h k)) ko hs)),
         calls = n\<rparr>, None)" by blast
    have "Save_headers NoFault (Headers si) ko (h # hs) w
        = Save_headers NoFault (Headers si) ko hs w2"
      using hdr False a b by simp
    with c False show ?thesis
      by (simp add: sectionLines_Cons w2_def w1_def)
  qed
qed

lemma sectionLines_member:
  assumes "l \<in> set (sectionLines val ko hs)"
  shows "\<exists>h \<in> set hs. h \<noteq> [] \<and> (l = headerLine h \<or> (\<exists>k \<in> set (ko h). l = pairLine k (val h k)))"
  using assms by (auto simp: sectionLines_def split: if_splits)

lemma pairLine_written_ok:
  assumes "keyOK k" "valueOK v"
  shows "LF \<notin> set (pairLine k v) \<and> (pairLine k v = [] \<or> last (pairLine k v) \<noteq> CR)"
proof -
  from assms have v: "v \<noteq> []" "trailingSpace v = 0" "LF \<notin> set v" and k: "LF \<notin> set k"
    by (simp_all add: keyOK_def valueOK_def trimmed_def)
  have "\<not> suffix [CR] v" using v(2) spaceRunes_blank(5) by (auto simp: trailingSpace_0_iff)
  then have "last v \<noteq> CR" using v(1) by (metis append_butlast_last_id suffix_def)
  moreover have "last (pairLine k v) = last v" using v(1) by (simp add: pairLine_def)
  moreover have "LF \<notin> set (pairLine k v)" using v(3) k by (simp add: pairLine_def)
  ultimately show ?thesis by simp
qed

lemma headerLine_written_ok:
  assumes "LF \<notin> set h"
  shows "LF \<notin> set (headerLine h) \<and> (headerLine h = [] \<or> last (headerLine h) \<noteq> CR)"
  using assms by (simp add: headerLine_def)

lemma SettingsINI_round_trip:
  assumes "fname = (if filename = [] then si_Filename si else filename)" "fname \<noteq> []"
    and "validStore si" "distinct ho" "set ho = dom (Headers si)"
    and "\<forall>h hdr. Headers si h = Some hdr \<longrightarrow> set (ko h) = dom (Values hdr)"
    and "0 \<le> buffer" "buffer \<le> maxAlloc"
  shows "\<exists>fs' si'. SettingsINI_Save fs NoFault ho ko si filename = (si, fs', None)
     \<and> SettingsINI_Load fs' NoFault (NewSettingsINI buffer) fname = Returns (si', None)
     \<and> (\<forall>h k. SettingsINI_Get si' h k = SettingsINI_Get si h k)"
proof -
  define val where "val = (\<lambda>h k. the (lookup si h k))"
  define U where "U = (case Headers si [] of None \<Rightarrow> [] | Some hdr \<Rightarrow> ko [])"
  define LU where "LU = map (\<lambda>k. pairLine k (val [] k)) U"
  define LS where "LS = sectionLines val ko ho"
  define bytes where "bytes = concat (map (\<lambda>l. l @ [LF]) (LU @ LS))"
  define fs' where "fs' = fs(fname \<mapsto> bytes)"
  define si0 where "si0 = NewSettingsINI buffer\<lparr>si_Filename := fname, Headers := Map.empty\<rparr>"
  have sub: "\<forall>h hdr. Headers si h = Some hdr \<longrightarrow> set (ko h) \<subseteq> dom (Values hdr)"
    using assms(6) by auto
  have okp: "keyOK k \<and> valueOK (val h k)" if "Headers si h = Some hdr" "k \<in> set (ko h)" for h hdr k
  proof -
    from that assms(6) obtain v where v: "Values hdr k = Some v" by blast
    with that(1) have "val h k = v" by (simp add: val_def lookup_def)
    with assms(3) that(1) v show ?thesis by (auto simp: validStore_def)
  qed
  have lk: "(if k \<in> set (ko h) then Some (val h k) else None) = lookup si h k"
    if "Headers si h = Some hdr" for h hdr k
  proof (cases "Values hdr k")
    case None
    with that assms(6) show ?thesis by (auto simp: lookup_def)
  next
    case (Some v)
    with that assms(6) show ?thesis by (auto simp: lookup_def val_def)
  qed
  \<comment> \<open>what Save writes\<close>
  obtain n where first: "(case Headers si [] of
        None \<Rightarrow> (\<lparr>written = [], calls = 0\<rparr>, False)
      | Some header \<Rightarrow> Save_values NoFault header (ko []) \<lparr>written = [], calls = 0\<rparr>)
      = (\<lparr>written = concat (map (\<lambda>l. l @ [LF]) LU), calls = n\<rparr>, False)"
  proof (cases "Headers si []")
    case None
    then have "(case Headers si [] of
        None \<Rightarrow> (\<lparr>written = [], calls = 0\<rparr>, False)
      | Some header \<Rightarrow> Save_values NoFault header (ko []) \<lparr>written = [], calls = 0\<rparr>)
      = (\<lparr>written = concat (map (\<lambda>l. l @ [LF]) LU), calls = 0\<rparr>, False)"
      by (simp add: LU_def U_def)
    then show ?thesis by (rule that)
  next
    case (Some hdr)
    with sub have "set (ko []) \<subseteq> dom (Values hdr)" by blast
    from Save_values_NoFault [OF Some this, of "\<lparr>written = [], calls = 0\<rparr>"] Some
    have "(case Headers si [] of
        None \<Rightarrow> (\<lparr>written = [], calls = 0\<rparr>, False)
      | Some header \<Rightarrow> Save_values NoFault header (ko []) \<lparr>written = [], calls = 0\<rparr>)
      = (\<lparr>written = concat (map (\<lambda>l. l @ [LF]) LU), calls = length (ko [])\<rparr>, False)"
      by (simp add: LU_def U_def val_def)
    then show ?thesis by (rule that)
  qed
  have "set ho \<subseteq> dom (Headers si)" using assms(5) by simp
  from Save_headers_NoFault [OF this sub,
      of "\<lparr>written = concat (map (\<lambda>l. l @ [LF]) LU), calls = n\<rparr>"]
  obtain m where second: "Save_headers NoFault (Headers si) ko ho
        \<lparr>written = concat (map (\<lambda>l. l @ [LF]) LU), calls = n\<rparr>
      = (\<lparr>written = bytes, calls = m\<rparr>, None)"
    by (auto simp: bytes_def LS_def val_def)
  have fn: "\<not> (length filename = 0 \<and> length (si_Filename si) = 0)"
    "(if length filename = 0 then si_Filename si else filename) = fname"
    using assms(1,2) by auto
  have save: "SettingsINI_Save fs NoFault ho ko si filename = (si, fs', None)"
    unfolding SettingsINI_Save_def Let_def fn(2) first
    using fn(1) by (simp add: second fs'_def)
  \<comment> \<open>the lines of the file\<close>
  have ok: "\<forall>l \<in> set (LU @ LS). LF \<notin> set l \<and> (l = [] \<or> last l \<noteq> CR)"
  proof
    fix l assume "l \<in> set (LU @ LS)"
    then consider "l \<in> set LU" | "l \<in> set LS" by auto
    then show "LF \<notin> set l \<and> (l = [] \<or> last l \<noteq> CR)"
    proof cases
      case 1
      then obtain k where k: "k \<in> set U" "l = pairLine k (val [] k)" by (auto simp: LU_def)
      then obtain hdr where "Headers si [] = Some hdr" "k \<in> set (ko [])"
        by (cases "Headers si []") (auto simp: U_def)
      from okp [OF this] k(2) show ?thesis using pairLine_written_ok by blast
    next
      case 2
      from sectionLines_member [OF 2 [unfolded LS_def]] obtain h where
        h: "h \<in> set ho" "h \<noteq> []" "l = headerLine h \<or> (\<exists>k \<in> set (ko h). l = pairLine k (val h k))"
        by blast
      with assms(5) obtain hdr where hdr: "Headers si h = Some hdr" by auto
      from h(3) show ?thesis
      proof
        assume "l = headerLine h"
        moreover from assms(3) hdr have "LF \<notin> set h" by (auto simp: validStore_def)
        ultimately show ?thesis using headerLine_written_ok by blast
      next
        assume "\<exists>k \<in> set (ko h). l = pairLine k (val h k)"
        then obtain k where k: "k \<in> set (ko h)" "l = pairLine k (val h k)" by blast
        from okp [OF hdr k(1)] k(2) show ?thesis using pairLine_written_ok by blast
      qed
    qed
  qed
  have lines: "fileLines bytes = LU @ LS"
    unfolding bytes_def by (rule fileLines_written [OF ok])
  \<comment> \<open>what Load makes of them\<close>
  have u_ok: "\<forall>k \<in> set U. keyOK k \<and> valueOK (val [] k)"
  proof
    fix k assume "k \<in> set U"
    then obtain hdr where "Headers si [] = Some hdr" "k \<in> set (ko [])"
      by (cases "Headers si []") (auto simp: U_def)
    from okp [OF this] show "keyOK k \<and> valueOK (val [] k)" .
  qed
  have "Headers si0 = Map.empty" by (simp add: si0_def)
  from steps_unnamed [OF u_ok this] obtain s1 c1 where s1:
    "SettingsINI_Load_steps LU si0 None = Inr (s1, c1)"
    "dom (Headers s1) \<subseteq> {[]}"
    "\<forall>h k. lookup s1 h k = (if h = [] \<and> k \<in> set U then Some (val [] k) else None)"
    unfolding LU_def by blast
  have e1: "\<forall>h \<in> set ho. h \<noteq> [] \<longrightarrow> Headers s1 h = None" using s1(2) by auto
  have s_ok: "\<forall>h \<in> set ho. \<forall>k \<in> set (ko h). keyOK k \<and> valueOK (val h k)"
  proof (intro ballI)
    fix h k assume "h \<in> set ho" "k \<in> set (ko h)"
    with assms(5) obtain hdr where "Headers si h = Some hdr" "k \<in> set (ko h)" by auto
    from okp [OF this] show "keyOK k \<and> valueOK (val h k)" .
  qed
  from steps_sections [OF assms(4) e1 s_ok, of c1] obtain s' c' where s':
    "SettingsINI_Load_steps LS s1 c1 = Inr (s', c')"
    "\<forall>h k. lookup s' h k =
        (if h \<in> set ho \<and> h \<noteq> [] then (if k \<in> set (ko h) then Some (val h k) else None)
         else lookup s1 h k)"
    unfolding LS_def by blast
  have "SettingsINI_Load_steps (LU @ LS) si0 None = Inr (s', c')"
    using SettingsINI_Load_steps_append [OF s1(1), of LS] s'(1) by simp
  then have run: "SettingsINI_Load_lines (fileLines bytes) si0 None = (s', None)"
    unfolding lines by (rule SettingsINI_Load_lines_steps)
  have same: "lookup s' h k = lookup si h k" for h k
  proof (cases "h \<in> set ho \<and> h \<noteq> []")
    case True
    with assms(5) obtain hdr where "Headers si h = Some hdr" by auto
    from lk [OF this] True s'(2) show ?thesis by simp
  next
    case False
    then have a: "lookup s' h k = (if h = [] \<and> k \<in> set U then Some (val [] k) else None)"
      using s'(2) s1(3) by auto
    show ?thesis
    proof (cases "h = []")
      case h: True
      show ?thesis
      proof (cases "Headers si []")
        case None
        with a h show ?thesis by (simp add: U_def lookup_def)
      next
        case (Some hdr)
        from lk [OF Some, of k] a h Some show ?thesis by (simp add: U_def)
      qed
    next
      case nh: False
      with False assms(5) have "Headers si h = None" by auto
      with a nh show ?thesis by (simp add: lookup_def)
    qed
  qed
  have op: "Open fs' NoFault fname = Some bytes" by (simp add: Open_def fs'_def)
  have nb: "\<not> broken (NewReader NoFault bytes)" "unread (NewReader NoFault bytes) = bytes"
    by (simp_all add: NewReader_def)
  have loop: "SettingsINI_Load_loop (NewReader NoFault bytes) si0 None = (s', None)"
    using SettingsINI_Load_loop_lines [OF nb(1), of si0 None] run by (simp add: nb(2))
  have si0': "NewSettingsINI buffer\<lparr>si_Filename := fname, Headers := Map.empty\<rparr> = si0"
    by (simp add: si0_def)
  have "SettingsINI_Load fs' NoFault (NewSettingsINI buffer) fname = Returns (s', None)"
    using assms(2,7,8) op
    by (simp add: SettingsINI_Load_def Let_def makeFails_NoFault si0' loop)
      (simp add: NewSettingsINI_def)
  with save same show ?thesis by (auto simp: SettingsINI_Get_lookup)
qed

lemma validStore_New: "validStore (NewSettingsINI buffer)"
  by (simp add: validStore_def NewSettingsINI_def)

lemma validStore_Add:
  assumes "validStore si" "LF \<notin> set header" "keyOK name" "valueOK v"
  shows "validStore (fst (SettingsINI_Add si header name v))"
proof (cases "Headers si header")
  case None
  with assms show ?thesis
    by (auto simp: SettingsINI_Add_def validStore_def split: if_splits)
next
  case (Some h)
  show ?thesis
  proof (cases "Values h name")
    case None
    with Some have "fst (SettingsINI_Add si header name v)
        = si\<lparr>Headers := (Headers si)(header \<mapsto> h\<lparr>Values := (Values h)(name \<mapsto> v)\<rparr>)\<rparr>"
      by (simp add: SettingsINI_Add_def)
    with assms Some show ?thesis
      by (auto simp: validStore_def split: if_splits)
  next
    case (Some a)
    with \<open>Headers si header = Some h\<close> assms(1) show ?thesis
      by (simp add: SettingsINI_Add_def)
  qed
qed

lemma validStore_Set:
  assumes "validStore si" "keyOK name" "valueOK v"
  shows "validStore (fst (SettingsINI_Set si header name v))"
proof (cases "Headers si header")
  case None
  with assms show ?thesis by (simp add: SettingsINI_Set_def)
next
  case (Some h)
  show ?thesis
  proof (cases "Values h name")
    case None
    with Some assms(1) show ?thesis by (simp add: SettingsINI_Set_def)
  next
    case (Some a)
    with \<open>Headers si header = Some h\<close> have "fst (SettingsINI_Set si header name v)
        = si\<lparr>Headers := (Headers si)(header \<mapsto> h\<lparr>Values := (Values h)(name \<mapsto> v)\<rparr>)\<rparr>"
      by (simp add: SettingsINI_Set_def)
    with assms \<open>Headers si header = Some h\<close> show ?thesis
      by (auto simp: validStore_def split: if_splits)
  qed
qed

subsection \<open>The round trip\<close>

definition table2 :: SpreadsheetDelim where
  "table2 = \<lparr>sd_buffer = 16, sd_Filename = [], delimeter = '','', Data = [[], [''x'']]\<rparr>"

definition csv2 :: string where
  "csv2 = [LF] @ ''x'' @ [LF]"

definition keys1 :: "string \<Rightarrow> string list" where
  "keys1 h = [''x'']"

lemma store2_valid: "validStore store2"
proof -
  have "keyOK ''x''" "valueOK ''1''" by code_simp+
  then show ?thesis by (auto simp: validStore_def store2_def split: if_splits)
qed

lemma table1_rowSafe: "\<forall>row \<in> set (Data table1). rowSafe (delimeter table1) row"
proof -
  have "rowSafe '','' [''a'']" by code_simp
  then show ?thesis by (simp add: table1_def)
qed

text \<open>
  Claim C1, as stated for a table filled by \<open>Set\<close> with any cells. On a new table
  \<open>Set(1, 0, "x")\<close> creates the empty row 0 before the row \<open>[x]\<close>; \<open>Save\<close> writes the
  empty row as a bare line end, and \<open>Load\<close> passes over empty lines: the loaded table has
  the single row \<open>[x]\<close>, so \<open>Get(1, 0)\<close> finds \<open>x\<close> before and nothing after.
\<close>

theorem Set_Save_Load_loses_row:
  "SpreadsheetDelim_Set 100 100 (NewSpreadsheetDelim 16 '','') 1 0 ''x'' = Returns (table2, None)
   \<and> SpreadsheetDelim_Save Map.empty NoFault table2 ''f'' = (table2, [''f'' \<mapsto> csv2], None)
   \<and> SpreadsheetDelim_Load [''f'' \<mapsto> csv2] NoFault (NewSpreadsheetDelim 16 '','') ''f'' 0 0
       = Returns (table2\<lparr>sd_Filename := ''f'', Data := [[''x'']]\<rparr>, None)
   \<and> SpreadsheetDelim_Get table2 1 0 = Returns (''x'', True)
   \<and> SpreadsheetDelim_Get (table2\<lparr>sd_Filename := ''f'', Data := [[''x'']]\<rparr>) 1 0
       = Returns ([], False)"
proof -
  have a: "SpreadsheetDelim_Set 100 100 (NewSpreadsheetDelim 16 '','') 1 0 ''x'' = Returns (table2, None)"
    by (simp add: SpreadsheetDelim_Set_def NewSpreadsheetDelim_def Set_rows_eq Set_cols_eq at_def
        maxAlloc_def numeral_2_eq_2 table2_def)
  have b: "SpreadsheetDelim_Save Map.empty NoFault table2 ''f'' = (table2, [''f'' \<mapsto> csv2], None)"
    by (simp add: SpreadsheetDelim_Save_def table2_def WriteString_def csv2_def)
  have "SpreadsheetDelim_Load_lines (fileLines csv2) 0 0
          (NewSpreadsheetDelim 16 '',''\<lparr>sd_Filename := ''f''\<rparr>) 0
     = Returns (table2\<lparr>sd_Filename := ''f'', Data := [[''x'']]\<rparr>, None)"
    unfolding csv2_def table2_def NewSpreadsheetDelim_def by code_simp
  then have c: "SpreadsheetDelim_Load [''f'' \<mapsto> csv2] NoFault (NewSpreadsheetDelim 16 '','') ''f'' 0 0
       = Returns (table2\<lparr>sd_Filename := ''f'', Data := [[''x'']]\<rparr>, None)"
    by (simp add: SpreadsheetDelim_Load_def Open_def NewReader_def
        SpreadsheetDelim_Load_loop_lines) (simp add: NewSpreadsheetDelim_def)
  have d: "SpreadsheetDelim_Get table2 1 0 = Returns (''x'', True)"
    "SpreadsheetDelim_Get (table2\<lparr>sd_Filename := ''f'', Data := [[''x'']]\<rparr>) 1 0
       = Returns ([], False)"
    by (simp_all add: SpreadsheetDelim_Get_def table2_def at_def)
  from a b c d show ?thesis by simp
qed

text \<open>
  Claim C1, amended. Let the filename be non-empty, the buffer size of the new store not
  negative and not above the largest allocation, and the operating system without fault. For a valid \<open>SettingsINI\<close> store
  (whatever the order in which \<open>range\<close> yields the headers and the keys), and for a
  \<open>SpreadsheetDelim\<close> table whose delimiter is not empty and holds no line feed and
  whose rows are all safe (at least one cell, no line feed in a cell, no place in a cell
  followed by the delimiter where the split would find the delimiter early, a text that
  is not empty and does not end with a carriage return): \<open>Save\<close> succeeds, \<open>Load\<close> of
  the file into a new store of the same kind succeeds, and every \<open>Get\<close> on the loaded
  store returns what it returns on the saved one.
\<close>

theorem Save_Load_round_trip:
  assumes "fname \<noteq> []" and "0 \<le> buffer" and "buffer \<le> maxAlloc"
    and "validStore si" and "distinct ho" and "set ho = dom (Headers si)"
    and "\<forall>h hdr. Headers si h = Some hdr \<longrightarrow> set (ko h) = dom (Values hdr)"
    and "delimeter sd \<noteq> []" and "LF \<notin> set (delimeter sd)"
    and "\<forall>row \<in> set (Data sd). rowSafe (delimeter sd) row"
  shows "(\<exists>fs' si'. SettingsINI_Save fs NoFault ho ko si fname = (si, fs', None)
            \<and> SettingsINI_Load fs' NoFault (NewSettingsINI buffer) fname = Returns (si', None)
            \<and> (\<forall>h k. SettingsINI_Get si' h k = SettingsINI_Get si h k))
       \<and> (\<exists>fs' sd'. SpreadsheetDelim_Save fs NoFault sd fname = (sd, fs', None)
            \<and> SpreadsheetDelim_Load fs' NoFault (NewSpreadsheetDelim buffer (delimeter sd)) fname 0 0
                = Returns (sd', None)
            \<and> (\<forall>row col. SpreadsheetDelim_Get sd' row col = SpreadsheetDelim_Get sd row col))"
proof
  have fn: "fname = (if fname = [] then si_Filename si else fname)" using assms(1) by simp
  from SettingsINI_round_trip [OF fn assms(1) assms(4) assms(5) assms(6) assms(7) assms(2) assms(3)]
  show "\<exists>fs' si'. SettingsINI_Save fs NoFault ho ko si fname = (si, fs', None)
            \<and> SettingsINI_Load fs' NoFault (NewSettingsINI buffer) fname = Returns (si', None)
            \<and> (\<forall>h k. SettingsINI_Get si' h k = SettingsINI_Get si h k)" .
next
  have fn: "fname = (if fname = [] then sd_Filename sd else fname)" using assms(1) by simp
  from SpreadsheetDelim_round_trip [OF fn assms(1) assms(8) assms(9) assms(10) assms(2) assms(3)]
  obtain fs' where r: "SpreadsheetDelim_Save fs NoFault sd fname = (sd, fs', None)"
    "SpreadsheetDelim_Load fs' NoFault (NewSpreadsheetDelim buffer (delimeter sd)) fname 0 0
         = Returns (NewSpreadsheetDelim buffer (delimeter sd)
                      \<lparr>sd_Filename := fname, Data := Data sd\<rparr>, None)" by blast
  have "SpreadsheetDelim_Get (NewSpreadsheetDelim buffer (delimeter sd)
                      \<lparr>sd_Filename := fname, Data := Data sd\<rparr>) row col
      = SpreadsheetDelim_Get sd row col" for row col
    by (simp add: SpreadsheetDelim_Get_def)
  with r show "\<exists>fs' sd'. SpreadsheetDelim_Save fs NoFault sd fname = (sd, fs', None)
            \<and> SpreadsheetDelim_Load fs' NoFault (NewSpreadsheetDelim buffer (delimeter sd)) fname 0 0
                = Returns (sd', None)
            \<and> (\<forall>row col. SpreadsheetDelim_Get sd' row col = SpreadsheetDelim_Get sd row col)"
    by blast
qed

text \<open>
  An instance of the amended claim C1: the store with the pair \<open>x\<close>, \<open>1\<close> under \<open>A\<close>
  and the table with the single cell \<open>a\<close>, saved and loaded with a buffer of 4096 bytes.
\<close>

theorem Save_Load_round_trip_witness:
  "(\<exists>fs' si'. SettingsINI_Save Map.empty NoFault [''A''] keys1 store2 ''g'' = (store2, fs', None)
         \<and> SettingsINI_Load fs' NoFault (NewSettingsINI 4096) ''g'' = Returns (si', None)
         \<and> SettingsINI_Get si' ''A'' ''x'' = (''1'', True))
   \<and> (\<exists>fs' sd'. SpreadsheetDelim_Save Map.empty NoFault table1 ''g'' = (table1, fs', None)
         \<and> SpreadsheetDelim_Load fs' NoFault (NewSpreadsheetDelim 4096 '','') ''g'' 0 0
             = Returns (sd', None)
         \<and> SpreadsheetDelim_Get sd' 0 0 = Returns (''a'', True))"
proof -
  have h1: "''g'' \<noteq> []" "(0::int) \<le> 4096" "distinct [''A'']" by simp_all
  have h0: "4096 \<le> maxAlloc" by (simp add: maxAlloc_def)
  have h2: "set [''A''] = dom (Headers store2)" by (auto simp: store2_def split: if_splits)
  have h3: "\<forall>h hdr. Headers store2 h = Some hdr \<longrightarrow> set (keys1 h) = dom (Values hdr)"
    by (auto simp: store2_def keys1_def split: if_splits)
  have h4: "delimeter table1 \<noteq> []" "LF \<notin> set (delimeter table1)" by (simp_all add: table1_def)
  have g1: "SettingsINI_Get store2 ''A'' ''x'' = (''1'', True)"
    by (simp add: SettingsINI_Get_def store2_def)
  have g2: "SpreadsheetDelim_Get table1 0 0 = Returns (''a'', True)"
    by (simp add: SpreadsheetDelim_Get_def table1_def at_def)
  have d: "delimeter table1 = '',''" by (simp add: table1_def)
  from Save_Load_round_trip [OF h1(1) h1(2) h0 store2_valid h1(3) h2 h3 h4 table1_rowSafe,
      of Map.empty]
  have "(\<exists>fs' si'. SettingsINI_Save Map.empty NoFault [''A''] keys1 store2 ''g'' = (store2, fs', None)
         \<and> SettingsINI_Load fs' NoFault (NewSettingsINI 4096) ''g'' = Returns (si', None)
         \<and> SettingsINI_Get si' ''A'' ''x'' = (''1'', True))
   \<and> (\<exists>fs' sd'. SpreadsheetDelim_Save Map.empty NoFault table1 ''g'' = (table1, fs', None)
         \<and> SpreadsheetDelim_Load fs' NoFault (NewSpreadsheetDelim 4096 '','') ''g'' 0 0
             = Returns (sd', None)
         \<and> SpreadsheetDelim_Get sd' 0 0 = Returns (''a'', True))"
    unfolding d g1 [symmetric] g2 [symmetric] by metis
  then show ?thesis .
qed

end
